theory Spec2Isabelle
  imports Main "HOL-Library.Multiset" "HOL-Library.Word"
begin

section \<open>Go values and channel primitives\<close>

text \<open>
  The concurrency course (goroutines, channels, select, sync.WaitGroup) is modelled as
  state machines: every goroutine is a program counter, every statement that touches a
  channel or the WaitGroup is one atomic event, and a schedule is the list of events in
  the order the runtime executes them. An event that cannot run in a state (its
  goroutine is elsewhere, or it would block) yields \<open>None\<close>; a panic stops the program.

  Go's \<open>int\<close> is the 64-bit two's complement integer of the usual targets.
\<close>

type_synonym go_int = "64 word"

text \<open>
  A channel \<open>make(chan T, n)\<close>: the queued items (oldest first), the capacity, and whether
  \<open>close\<close> has been called. An unbuffered channel has capacity 0, so its queue stays
  empty and a value passes only when a sender meets a receiver.
\<close>

record 'a chan =
  chan_buf :: "'a list"
  chan_cap :: nat
  chan_closed :: bool

definition make_chan :: "nat \<Rightarrow> 'a chan" where
  "make_chan n = \<lparr>chan_buf = [], chan_cap = n, chan_closed = False\<rparr>"

datatype 'a send_result = SendPanic | SendBlocks | SendOk "'a chan"

datatype 'a recv_result = RecvBlocks | RecvClosed | RecvVal 'a "'a chan"

datatype 'a close_result = ClosePanic | CloseOk "'a chan"

text \<open>\<open>ch <- v\<close>: panics on a closed channel, blocks when the queue is full.\<close>

definition chan_send :: "'a \<Rightarrow> 'a chan \<Rightarrow> 'a send_result" where
  "chan_send v c =
     (if chan_closed c then SendPanic
      else if length (chan_buf c) < chan_cap c then SendOk (c\<lparr>chan_buf := chan_buf c @ [v]\<rparr>)
      else SendBlocks)"

text \<open>
  \<open>v, ok := <-ch\<close>: the oldest queued item if there is one; otherwise the closed
  indicator (\<open>ok = false\<close>) on a closed channel, and blocking on an open one.
\<close>

definition chan_recv :: "'a chan \<Rightarrow> 'a recv_result" where
  "chan_recv c =
     (case chan_buf c of
        x # xs \<Rightarrow> RecvVal x (c\<lparr>chan_buf := xs\<rparr>)
      | [] \<Rightarrow> if chan_closed c then RecvClosed else RecvBlocks)"

text \<open>\<open>close(ch)\<close>: panics on a channel that is closed already.\<close>

definition chan_close :: "'a chan \<Rightarrow> 'a close_result" where
  "chan_close c = (if chan_closed c then ClosePanic else CloseOk (c\<lparr>chan_closed := True\<rparr>))"

text \<open>
  \<open>processNumbers\<close>: \<open>for num := range ch\<close> prints one line per item with the item and
  its square. Run with no sender left, the loop returns the lines it printed, or never
  returns (\<open>None\<close>) when the channel is drained but still open.
\<close>

function processNumbers :: "go_int chan \<Rightarrow> (go_int \<times> go_int) list option" where
  "processNumbers c =
     (case chan_recv c of
        RecvVal num c' \<Rightarrow> map_option (\<lambda>out. (num, num * num) # out) (processNumbers c')
      | RecvClosed \<Rightarrow> Some []
      | RecvBlocks \<Rightarrow> None)"
  by pat_completeness auto
termination
  by (relation "measure (\<lambda>c. length (chan_buf c))")
     (auto simp: chan_recv_def split: list.splits if_splits)

declare processNumbers.simps [simp del]

section \<open>Producer and consumer\<close>

text \<open>
  \<open>producer(ch, cnt)\<close> runs \<open>for i := 1; i <= cnt; i++ { ch <- i }\<close> and then
  \<open>close(ch)\<close>; \<open>consumer(ch)\<close> runs \<open>for value := range ch\<close> and prints each value.
  The state keeps the channel, the producer's loop variable, whether the producer has
  returned, the values the consumer has printed so far, and whether its loop has ended.
\<close>

record pc_state =
  pc_chan :: "go_int chan"
  pc_i :: go_int
  pc_returned :: bool
  pc_seen :: "go_int list"
  pc_finished :: bool
  pc_panicked :: bool

datatype pc_event =
    Produce   \<comment> \<open>the producer's next statement: a buffered send, or \<open>close\<close> after the loop\<close>
  | Pass      \<comment> \<open>the producer's send meets the consumer's receive\<close>
  | Consume   \<comment> \<open>the consumer's next receive from the queue, or the end of its loop\<close>

definition pc_init :: "nat \<Rightarrow> pc_state" where
  "pc_init n = \<lparr>pc_chan = make_chan n, pc_i = 1, pc_returned = False, pc_seen = [],
                pc_finished = False, pc_panicked = False\<rparr>"

definition producer :: "go_int \<Rightarrow> pc_state \<Rightarrow> pc_state option" where
  "producer cnt s =
     (if pc_returned s then None
      else if pc_i s \<le>s cnt then
        (case chan_send (pc_i s) (pc_chan s) of
           SendPanic \<Rightarrow> Some (s\<lparr>pc_panicked := True\<rparr>)
         | SendBlocks \<Rightarrow> None
         | SendOk c \<Rightarrow> Some (s\<lparr>pc_chan := c, pc_i := pc_i s + 1\<rparr>))
      else
        (case chan_close (pc_chan s) of
           ClosePanic \<Rightarrow> Some (s\<lparr>pc_panicked := True\<rparr>)
         | CloseOk c \<Rightarrow> Some (s\<lparr>pc_chan := c, pc_returned := True\<rparr>)))"

definition consumer :: "pc_state \<Rightarrow> pc_state option" where
  "consumer s =
     (if pc_finished s then None
      else
        (case chan_recv (pc_chan s) of
           RecvBlocks \<Rightarrow> None
         | RecvClosed \<Rightarrow> Some (s\<lparr>pc_finished := True\<rparr>)
         | RecvVal v c \<Rightarrow> Some (s\<lparr>pc_chan := c, pc_seen := pc_seen s @ [v]\<rparr>)))"

text \<open>
  The direct hand-over: the producer is at \<open>ch <- i\<close>, the consumer waits in its
  receive, and nothing is queued. On an unbuffered channel this is the only way a value
  passes.
\<close>

definition pass :: "go_int \<Rightarrow> pc_state \<Rightarrow> pc_state option" where
  "pass cnt s =
     (if \<not> pc_returned s \<and> pc_i s \<le>s cnt \<and> \<not> pc_finished s
         \<and> \<not> chan_closed (pc_chan s) \<and> chan_buf (pc_chan s) = []
      then Some (s\<lparr>pc_i := pc_i s + 1, pc_seen := pc_seen s @ [pc_i s]\<rparr>)
      else None)"

definition pc_step :: "go_int \<Rightarrow> pc_event \<Rightarrow> pc_state \<Rightarrow> pc_state option" where
  "pc_step cnt e s =
     (if pc_panicked s then None
      else case e of Produce \<Rightarrow> producer cnt s | Pass \<Rightarrow> pass cnt s | Consume \<Rightarrow> consumer s)"

fun pc_run :: "go_int \<Rightarrow> pc_event list \<Rightarrow> pc_state \<Rightarrow> pc_state option" where
  "pc_run cnt [] s = Some s"
| "pc_run cnt (e # es) s =
     (case pc_step cnt e s of None \<Rightarrow> None | Some s' \<Rightarrow> pc_run cnt es s')"

text \<open>The sequence \<open>1, 2, ..., cnt\<close> (empty when \<open>cnt < 1\<close>).\<close>

definition one_to :: "go_int \<Rightarrow> go_int list" where
  "one_to cnt = map word_of_int [1 .. sint cnt]"

definition max_go_int :: go_int where
  "max_go_int = 9223372036854775807"

text \<open>
  What holds in every state an execution reaches when \<open>cnt\<close> is not the largest
  \<open>int\<close>: printed and queued values together are \<open>1, ..., i - 1\<close>, the loop variable
  stays within \<open>1 .. cnt + 1\<close>, the channel is closed exactly when the producer has
  returned (which it does only once the loop test has failed), and the consumer's loop ends
  only on a closed and drained channel.
\<close>

definition pc_inv :: "go_int \<Rightarrow> pc_state \<Rightarrow> bool" where
  "pc_inv cnt s \<longleftrightarrow>
     \<not> pc_panicked s
     \<and> pc_seen s @ chan_buf (pc_chan s) = map word_of_int [1 .. sint (pc_i s) - 1]
     \<and> 1 \<le> sint (pc_i s) \<and> sint (pc_i s) \<le> max 1 (sint cnt + 1)
     \<and> (pc_returned s \<longleftrightarrow> chan_closed (pc_chan s))
     \<and> (pc_returned s \<longrightarrow> \<not> pc_i s \<le>s cnt)
     \<and> (pc_finished s \<longrightarrow> chan_closed (pc_chan s) \<and> chan_buf (pc_chan s) = [])"

text \<open>The work left: sends, queued items, the close and the end of the consumer's loop.\<close>

definition pc_todo :: "go_int \<Rightarrow> pc_state \<Rightarrow> nat" where
  "pc_todo cnt s =
     3 * nat (max 1 (sint cnt + 1) - sint (pc_i s)) + 2 * length (chan_buf (pc_chan s))
     + (if pc_returned s then 0 else 1) + (if pc_finished s then 0 else 1)"

section \<open>sync.WaitGroup and the download tasks\<close>

text \<open>
  A \<open>sync.WaitGroup\<close> keeps its counter as an \<open>int32\<close>. \<open>Add(delta)\<close> adds the low 32 bits
  of \<open>delta\<close> to it, wrapping around, and panics ("negative WaitGroup counter") when the
  result is negative; the counter keeps that result. \<open>Done()\<close> is \<open>Add(-1)\<close>, and \<open>Wait()\<close>
  returns only while the counter is zero. The second panic of \<open>Add\<close>, for an \<open>Add\<close> that
  races with \<open>Wait\<close>, needs a waiter registered while the counter is zero; it cannot
  arise here, where the return of \<open>Wait\<close> is one event.
\<close>

type_synonym wg_counter = "32 word"

datatype wg_result = WgPanic wg_counter | WgOk wg_counter

definition wg_add :: "go_int \<Rightarrow> wg_counter \<Rightarrow> wg_result" where
  "wg_add delta c = (let v = c + ucast delta in if v <s 0 then WgPanic v else WgOk v)"

definition wg_done :: "wg_counter \<Rightarrow> wg_result" where
  "wg_done c = wg_add (- 1) c"

definition wg_wait :: "wg_counter \<Rightarrow> bool" where
  "wg_wait c \<longleftrightarrow> c = 0"

text \<open>
  Section 7 of \<open>courseFour\<close>: \<open>for i := 1; i <= 3; i++ { wg.Add(1); go downloadFile(i, &wg) }\<close>,
  then \<open>wg.Wait()\<close> and the line "All downloads complete!". The number of tasks (3 in the
  course) is the parameter \<open>K\<close>, an \<open>int\<close> like the loop variable. \<open>downloadFile\<close> defers
  \<open>wg.Done()\<close>, prints "Downloading file id...", sleeps, prints "File id downloaded!" and
  returns, which runs the deferred call.
\<close>

datatype dl_line = Downloading go_int | Downloaded go_int | AllComplete

datatype dl_task =
    TSpawned    \<comment> \<open>spawned, nothing printed\<close>
  | TSleeping   \<comment> \<open>first line printed, in \<open>time.Sleep\<close>\<close>
  | TDeferred   \<comment> \<open>body finished, the deferred \<open>wg.Done()\<close> is next\<close>
  | TFinished

datatype dl_pc =
    DAdd go_int   \<comment> \<open>at the loop test with \<open>i\<close>, then \<open>wg.Add(1)\<close>\<close>
  | DGo go_int    \<comment> \<open>at \<open>go downloadFile(i, &wg)\<close>\<close>
  | DWait         \<comment> \<open>in \<open>wg.Wait()\<close>\<close>
  | DDone         \<comment> \<open>\<open>Wait\<close> has returned and the last line is printed\<close>

text \<open>
  \<open>dl_tasks\<close> holds the goroutines spawned so far, in spawning order, each with the \<open>id\<close>
  it was given and where it stands.
\<close>

record dl_state =
  dl_wg :: wg_counter
  dl_pc :: dl_pc
  dl_tasks :: "(go_int \<times> dl_task) list"
  dl_out :: "dl_line list"
  dl_panicked :: bool

datatype dl_event =
    Coordinator      \<comment> \<open>the next statement of the spawning loop, or the return of \<open>Wait\<close>\<close>
  | TaskStart nat    \<comment> \<open>the \<open>p\<close>-th goroutine prints its first line\<close>
  | TaskEnd nat      \<comment> \<open>the \<open>p\<close>-th goroutine wakes up and prints its second line\<close>
  | TaskDone nat     \<comment> \<open>the \<open>p\<close>-th goroutine returns: the deferred \<open>wg.Done()\<close>\<close>

definition dl_init :: dl_state where
  "dl_init = \<lparr>dl_wg = 0, dl_pc = DAdd 1, dl_tasks = [], dl_out = [], dl_panicked = False\<rparr>"

definition task_of :: "dl_state \<Rightarrow> nat \<Rightarrow> (go_int \<times> dl_task) option" where
  "task_of s p = (if p < length (dl_tasks s) then Some (dl_tasks s ! p) else None)"

definition set_task :: "nat \<Rightarrow> dl_task \<Rightarrow> dl_state \<Rightarrow> dl_state" where
  "set_task p t s = s\<lparr>dl_tasks := (dl_tasks s)[p := (fst (dl_tasks s ! p), t)]\<rparr>"

definition coordinator :: "go_int \<Rightarrow> dl_state \<Rightarrow> dl_state option" where
  "coordinator K s =
     (case dl_pc s of
        DAdd i \<Rightarrow>
          if i \<le>s K then
            (case wg_add 1 (dl_wg s) of
               WgPanic v \<Rightarrow> Some (s\<lparr>dl_wg := v, dl_panicked := True\<rparr>)
             | WgOk v \<Rightarrow> Some (s\<lparr>dl_wg := v, dl_pc := DGo i\<rparr>))
          else Some (s\<lparr>dl_pc := DWait\<rparr>)
      | DGo i \<Rightarrow> Some (s\<lparr>dl_tasks := dl_tasks s @ [(i, TSpawned)], dl_pc := DAdd (i + 1)\<rparr>)
      | DWait \<Rightarrow>
          if wg_wait (dl_wg s) then Some (s\<lparr>dl_pc := DDone, dl_out := dl_out s @ [AllComplete]\<rparr>)
          else None
      | DDone \<Rightarrow> None)"

definition downloadFile :: "dl_event \<Rightarrow> dl_state \<Rightarrow> dl_state option" where
  "downloadFile e s =
     (case e of
        Coordinator \<Rightarrow> None
      | TaskStart p \<Rightarrow>
          (case task_of s p of
             Some (ident, TSpawned) \<Rightarrow>
               Some (set_task p TSleeping (s\<lparr>dl_out := dl_out s @ [Downloading ident]\<rparr>))
           | _ \<Rightarrow> None)
      | TaskEnd p \<Rightarrow>
          (case task_of s p of
             Some (ident, TSleeping) \<Rightarrow>
               Some (set_task p TDeferred (s\<lparr>dl_out := dl_out s @ [Downloaded ident]\<rparr>))
           | _ \<Rightarrow> None)
      | TaskDone p \<Rightarrow>
          (case task_of s p of
             Some (ident, TDeferred) \<Rightarrow>
               (case wg_done (dl_wg s) of
                  WgPanic v \<Rightarrow> Some (s\<lparr>dl_wg := v, dl_panicked := True\<rparr>)
                | WgOk v \<Rightarrow> Some (set_task p TFinished (s\<lparr>dl_wg := v\<rparr>)))
           | _ \<Rightarrow> None))"

definition dl_step :: "go_int \<Rightarrow> dl_event \<Rightarrow> dl_state \<Rightarrow> dl_state option" where
  "dl_step K e s =
     (if dl_panicked s then None
      else case e of Coordinator \<Rightarrow> coordinator K s | _ \<Rightarrow> downloadFile e s)"

fun dl_run :: "go_int \<Rightarrow> dl_event list \<Rightarrow> dl_state \<Rightarrow> dl_state option" where
  "dl_run K [] s = Some s"
| "dl_run K (e # es) s =
     (case dl_step K e s of None \<Rightarrow> None | Some s' \<Rightarrow> dl_run K es s')"

text \<open>A spawned task that has not called \<open>Done\<close> yet.\<close>

fun dl_active :: "go_int \<times> dl_task \<Rightarrow> bool" where
  "dl_active (ident, TFinished) = False"
| "dl_active (ident, _) = True"

fun dl_pending :: "dl_pc \<Rightarrow> int" where
  "dl_pending (DGo i) = 1"
| "dl_pending _ = 0"

text \<open>
  In every state reached without a panic the counter is the number of spawned tasks
  still to call \<open>Done\<close>, plus one while the coordinator stands between \<open>Add(1)\<close> and the
  \<open>go\<close> statement: every decrement has its increment before it.
\<close>

definition dl_counter_ok :: "dl_state \<Rightarrow> bool" where
  "dl_counter_ok s \<longleftrightarrow>
     sint (dl_wg s) = int (length (filter dl_active (dl_tasks s))) + dl_pending (dl_pc s)"

text \<open>Where the coordinator stands fixes which tasks have been spawned.\<close>

fun dl_pc_ok :: "go_int \<Rightarrow> dl_pc \<Rightarrow> go_int list \<Rightarrow> bool" where
  "dl_pc_ok K (DAdd i) ids \<longleftrightarrow>
     1 \<le> sint i \<and> sint i \<le> max 1 (sint K + 1) \<and> ids = map word_of_int [1 .. sint i - 1]"
| "dl_pc_ok K (DGo i) ids \<longleftrightarrow>
     1 \<le> sint i \<and> sint i \<le> sint K \<and> ids = map word_of_int [1 .. sint i - 1]"
| "dl_pc_ok K DWait ids \<longleftrightarrow> ids = one_to K"
| "dl_pc_ok K DDone ids \<longleftrightarrow> ids = one_to K"

text \<open>
  What holds in every state an execution reaches when \<open>K\<close> is below \<open>2 ^ 31\<close>: no panic,
  the counter as above, the tasks spawned are those below the loop variable, and the last
  line is printed once, when \<open>Wait\<close> returns with the counter at zero.
\<close>

definition dl_inv :: "go_int \<Rightarrow> dl_state \<Rightarrow> bool" where
  "dl_inv K s \<longleftrightarrow>
     \<not> dl_panicked s
     \<and> dl_counter_ok s
     \<and> dl_pc_ok K (dl_pc s) (map fst (dl_tasks s))
     \<and> (dl_pc s = DDone \<longrightarrow> dl_wg s = 0)
     \<and> count_list (dl_out s) AllComplete = (if dl_pc s = DDone then 1 else 0)"

fun dl_task_rank :: "go_int \<times> dl_task \<Rightarrow> nat" where
  "dl_task_rank (ident, TSpawned) = 3"
| "dl_task_rank (ident, TSleeping) = 2"
| "dl_task_rank (ident, TDeferred) = 1"
| "dl_task_rank (ident, TFinished) = 0"

fun dl_pc_rank :: "go_int \<Rightarrow> dl_pc \<Rightarrow> nat" where
  "dl_pc_rank K (DAdd i) = 5 * nat (max 1 (sint K + 1) - sint i) + 3"
| "dl_pc_rank K (DGo i) = 5 * nat (max 1 (sint K + 1) - sint i) + 2"
| "dl_pc_rank K DWait = 1"
| "dl_pc_rank K DDone = 0"

text \<open>The work left: statements of the coordinator and of every task.\<close>

definition dl_todo :: "go_int \<Rightarrow> dl_state \<Rightarrow> nat" where
  "dl_todo K s = dl_pc_rank K (dl_pc s) + sum_list (map dl_task_rank (dl_tasks s))"

section \<open>Fan-out and fan-in\<close>

text \<open>
  \<open>fanOut(input, numWorkers)\<close> makes one unbuffered channel per worker and spawns the
  workers; each runs \<open>for val := range input { ch <- val * val }\<close> and then \<open>close(ch)\<close>.
  \<open>fanIn(channels...)\<close> makes the unbuffered channel \<open>out\<close>, and for every channel calls
  \<open>wg.Add(1)\<close> and spawns a merger running \<open>for val := range c { out <- val }\<close> with a
  deferred \<open>wg.Done()\<close>; then it spawns the finalizer \<open>wg.Wait(); close(out)\<close> and returns
  \<open>out\<close>. The stage is \<open>fanIn(fanOut(input, numWorkers)...)\<close>, whose caller ranges over
  \<open>out\<close>; a sender feeds \<open>input\<close> with the items and closes it.
\<close>

datatype fan_worker =
    WRecv          \<comment> \<open>at \<open>range input\<close>\<close>
  | WSend go_int   \<comment> \<open>received \<open>val\<close>, at \<open>ch <- val * val\<close>\<close>
  | WClosing       \<comment> \<open>loop ended, at \<open>close(ch)\<close>\<close>
  | WDone

datatype fan_merger =
    MRecv          \<comment> \<open>at \<open>range c\<close>\<close>
  | MSend go_int   \<comment> \<open>received \<open>val\<close>, at \<open>out <- val\<close>\<close>
  | MExit          \<comment> \<open>loop ended, the deferred \<open>wg.Done()\<close> is next\<close>
  | MDone

datatype fan_finalizer = FinNone | FinWait | FinClose | FinDone

datatype fan_pc =
    FMake         \<comment> \<open>\<open>fanOut\<close>: at \<open>make([]<-chan int, numWorkers)\<close>\<close>
  | FOut go_int   \<comment> \<open>\<open>fanOut\<close>: at the loop test with \<open>i\<close>\<close>
  | FAdd nat      \<comment> \<open>\<open>fanIn\<close>: at the next channel of \<open>range channels\<close>, then \<open>wg.Add(1)\<close>\<close>
  | FGo nat       \<comment> \<open>\<open>fanIn\<close>: at the \<open>go\<close> statement of the merger\<close>
  | FFin          \<comment> \<open>\<open>fanIn\<close>: at the \<open>go\<close> statement of the finalizer\<close>
  | FRange        \<comment> \<open>\<open>fanIn\<close> has returned \<open>out\<close>; the caller is at \<open>range out\<close>\<close>
  | FEnd          \<comment> \<open>the caller's loop has ended\<close>

record fan_state =
  fan_pending :: "go_int list"        \<comment> \<open>items the sender has still to send\<close>
  fan_input :: "go_int chan"
  fan_workers :: "fan_worker list"    \<comment> \<open>the workers spawned so far\<close>
  fan_chans :: "bool list"            \<comment> \<open>for each worker's channel, whether it is closed\<close>
  fan_mergers :: "fan_merger list"    \<comment> \<open>the mergers spawned so far\<close>
  fan_wg :: wg_counter
  fan_pc :: fan_pc
  fan_fin :: fan_finalizer
  fan_out_closed :: bool
  fan_received :: "go_int list"       \<comment> \<open>what the caller has received from \<open>out\<close>\<close>
  fan_panicked :: bool

datatype fan_event =
    Feed          \<comment> \<open>the sender's next statement: a buffered send, or \<open>close(input)\<close> at the end\<close>
  | FeedTo nat    \<comment> \<open>the sender's send meets the receive of worker \<open>i\<close>\<close>
  | Caller        \<comment> \<open>the caller's next statement in \<open>fanOut\<close>, \<open>fanIn\<close> or its own loop\<close>
  | Work nat      \<comment> \<open>worker \<open>i\<close>: a receive from the input queue, the end of its loop, or \<open>close(ch)\<close>\<close>
  | Hand nat      \<comment> \<open>the send of worker \<open>i\<close> meets the receive of merger \<open>i\<close>\<close>
  | Merge nat     \<comment> \<open>merger \<open>i\<close>: the end of its loop, or the deferred \<open>wg.Done()\<close>\<close>
  | Deliver nat   \<comment> \<open>the send of merger \<open>i\<close> on \<open>out\<close> meets the caller's receive\<close>
  | Finalizer     \<comment> \<open>the return of \<open>wg.Wait()\<close>, or \<open>close(out)\<close>\<close>

definition fan_init :: "go_int list \<Rightarrow> nat \<Rightarrow> fan_state" where
  "fan_init items n =
     \<lparr>fan_pending = items, fan_input = make_chan n, fan_workers = [], fan_chans = [],
      fan_mergers = [], fan_wg = 0, fan_pc = FMake, fan_fin = FinNone,
      fan_out_closed = False, fan_received = [], fan_panicked = False\<rparr>"

definition feed :: "fan_state \<Rightarrow> fan_state option" where
  "feed s =
     (case fan_pending s of
        x # xs \<Rightarrow>
          (case chan_send x (fan_input s) of
             SendPanic \<Rightarrow> Some (s\<lparr>fan_panicked := True\<rparr>)
           | SendBlocks \<Rightarrow> None
           | SendOk c \<Rightarrow> Some (s\<lparr>fan_pending := xs, fan_input := c\<rparr>))
      | [] \<Rightarrow>
          (case chan_close (fan_input s) of
             ClosePanic \<Rightarrow> None
           | CloseOk c \<Rightarrow> Some (s\<lparr>fan_input := c\<rparr>)))"

definition feed_to :: "nat \<Rightarrow> fan_state \<Rightarrow> fan_state option" where
  "feed_to i s =
     (case fan_pending s of
        x # xs \<Rightarrow>
          if i < length (fan_workers s) \<and> fan_workers s ! i = WRecv
             \<and> \<not> chan_closed (fan_input s) \<and> chan_buf (fan_input s) = []
          then Some (s\<lparr>fan_pending := xs, fan_workers := (fan_workers s)[i := WSend x]\<rparr>)
          else None
      | [] \<Rightarrow> None)"

definition fanOut_worker :: "nat \<Rightarrow> fan_state \<Rightarrow> fan_state option" where
  "fanOut_worker i s =
     (if i < length (fan_workers s) \<and> i < length (fan_chans s) then
        (case fan_workers s ! i of
           WRecv \<Rightarrow>
             (case chan_recv (fan_input s) of
                RecvBlocks \<Rightarrow> None
              | RecvClosed \<Rightarrow> Some (s\<lparr>fan_workers := (fan_workers s)[i := WClosing]\<rparr>)
              | RecvVal v c \<Rightarrow>
                  Some (s\<lparr>fan_input := c, fan_workers := (fan_workers s)[i := WSend v]\<rparr>))
         | WSend v \<Rightarrow> None
         | WClosing \<Rightarrow>
             if fan_chans s ! i then Some (s\<lparr>fan_panicked := True\<rparr>)
             else Some (s\<lparr>fan_chans := (fan_chans s)[i := True],
                         fan_workers := (fan_workers s)[i := WDone]\<rparr>)
         | WDone \<Rightarrow> None)
      else None)"

definition hand :: "nat \<Rightarrow> fan_state \<Rightarrow> fan_state option" where
  "hand i s =
     (if i < length (fan_workers s) \<and> i < length (fan_chans s) then
        (case fan_workers s ! i of
           WSend v \<Rightarrow>
             if fan_chans s ! i then Some (s\<lparr>fan_panicked := True\<rparr>)
             else if i < length (fan_mergers s) \<and> fan_mergers s ! i = MRecv
             then Some (s\<lparr>fan_workers := (fan_workers s)[i := WRecv],
                         fan_mergers := (fan_mergers s)[i := MSend (v * v)]\<rparr>)
             else None
         | _ \<Rightarrow> None)
      else None)"

definition fanIn_merger :: "nat \<Rightarrow> fan_state \<Rightarrow> fan_state option" where
  "fanIn_merger i s =
     (if i < length (fan_mergers s) \<and> i < length (fan_chans s) then
        (case fan_mergers s ! i of
           MRecv \<Rightarrow>
             if fan_chans s ! i then Some (s\<lparr>fan_mergers := (fan_mergers s)[i := MExit]\<rparr>)
             else None
         | MSend v \<Rightarrow> None
         | MExit \<Rightarrow>
             (case wg_done (fan_wg s) of
                WgPanic c \<Rightarrow> Some (s\<lparr>fan_wg := c, fan_panicked := True\<rparr>)
              | WgOk c \<Rightarrow> Some (s\<lparr>fan_wg := c, fan_mergers := (fan_mergers s)[i := MDone]\<rparr>))
         | MDone \<Rightarrow> None)
      else None)"

definition deliver :: "nat \<Rightarrow> fan_state \<Rightarrow> fan_state option" where
  "deliver i s =
     (if i < length (fan_mergers s) then
        (case fan_mergers s ! i of
           MSend v \<Rightarrow>
             if fan_out_closed s then Some (s\<lparr>fan_panicked := True\<rparr>)
             else if fan_pc s = FRange
             then Some (s\<lparr>fan_received := fan_received s @ [v],
                         fan_mergers := (fan_mergers s)[i := MRecv]\<rparr>)
             else None
         | _ \<Rightarrow> None)
      else None)"

definition finalizer :: "fan_state \<Rightarrow> fan_state option" where
  "finalizer s =
     (case fan_fin s of
        FinNone \<Rightarrow> None
      | FinWait \<Rightarrow> if wg_wait (fan_wg s) then Some (s\<lparr>fan_fin := FinClose\<rparr>) else None
      | FinClose \<Rightarrow>
          if fan_out_closed s then Some (s\<lparr>fan_panicked := True\<rparr>)
          else Some (s\<lparr>fan_out_closed := True, fan_fin := FinDone\<rparr>)
      | FinDone \<Rightarrow> None)"

text \<open>
  The caller: \<open>fanOut\<close> (where \<open>make\<close> panics on a negative length, and the loop
  \<open>for i := 0; i < numWorkers; i++\<close> spawns the workers), then \<open>fanIn\<close> over the channels
  returned, then its own \<open>range\<close> over \<open>out\<close>, which ends when \<open>out\<close> is closed.
\<close>

definition caller :: "go_int \<Rightarrow> fan_state \<Rightarrow> fan_state option" where
  "caller numWorkers s =
     (case fan_pc s of
        FMake \<Rightarrow>
          if numWorkers <s 0 then Some (s\<lparr>fan_panicked := True\<rparr>)
          else Some (s\<lparr>fan_pc := FOut 0\<rparr>)
      | FOut i \<Rightarrow>
          if i <s numWorkers
          then Some (s\<lparr>fan_workers := fan_workers s @ [WRecv], fan_chans := fan_chans s @ [False],
                      fan_pc := FOut (i + 1)\<rparr>)
          else Some (s\<lparr>fan_pc := FAdd 0\<rparr>)
      | FAdd k \<Rightarrow>
          if k < length (fan_chans s) then
            (case wg_add 1 (fan_wg s) of
               WgPanic c \<Rightarrow> Some (s\<lparr>fan_wg := c, fan_panicked := True\<rparr>)
             | WgOk c \<Rightarrow> Some (s\<lparr>fan_wg := c, fan_pc := FGo k\<rparr>))
          else Some (s\<lparr>fan_pc := FFin\<rparr>)
      | FGo k \<Rightarrow> Some (s\<lparr>fan_mergers := fan_mergers s @ [MRecv], fan_pc := FAdd (k + 1)\<rparr>)
      | FFin \<Rightarrow> Some (s\<lparr>fan_fin := FinWait, fan_pc := FRange\<rparr>)
      | FRange \<Rightarrow> if fan_out_closed s then Some (s\<lparr>fan_pc := FEnd\<rparr>) else None
      | FEnd \<Rightarrow> None)"

definition fan_step :: "go_int \<Rightarrow> fan_event \<Rightarrow> fan_state \<Rightarrow> fan_state option" where
  "fan_step numWorkers e s =
     (if fan_panicked s then None
      else case e of
        Feed \<Rightarrow> feed s
      | FeedTo i \<Rightarrow> feed_to i s
      | Caller \<Rightarrow> caller numWorkers s
      | Work i \<Rightarrow> fanOut_worker i s
      | Hand i \<Rightarrow> hand i s
      | Merge i \<Rightarrow> fanIn_merger i s
      | Deliver i \<Rightarrow> deliver i s
      | Finalizer \<Rightarrow> finalizer s)"

fun fan_run :: "go_int \<Rightarrow> fan_event list \<Rightarrow> fan_state \<Rightarrow> fan_state option" where
  "fan_run numWorkers [] s = Some s"
| "fan_run numWorkers (e # es) s =
     (case fan_step numWorkers e s of None \<Rightarrow> None | Some s' \<Rightarrow> fan_run numWorkers es s')"

text \<open>The value a worker or a merger holds between its receive and its send.\<close>

fun wk_item :: "fan_worker \<Rightarrow> go_int multiset" where
  "wk_item (WSend v) = {#v * v#}"
| "wk_item _ = {#}"

fun mg_item :: "fan_merger \<Rightarrow> go_int multiset" where
  "mg_item (MSend v) = {#v#}"
| "mg_item _ = {#}"

fun wk_closing :: "fan_worker \<Rightarrow> bool" where
  "wk_closing WClosing = True"
| "wk_closing WDone = True"
| "wk_closing _ = False"

fun mg_exited :: "fan_merger \<Rightarrow> bool" where
  "mg_exited MExit = True"
| "mg_exited MDone = True"
| "mg_exited _ = False"

fun mg_active :: "fan_merger \<Rightarrow> bool" where
  "mg_active MDone = False"
| "mg_active _ = True"

text \<open>A worker's channel is closed exactly when the worker has returned.\<close>

definition chans_ok :: "bool list \<Rightarrow> fan_worker list \<Rightarrow> bool" where
  "chans_ok cs ws \<longleftrightarrow> cs = map (\<lambda>w. w = WDone) ws"

text \<open>A worker leaves its loop only when \<open>input\<close> is closed and drained.\<close>

definition drained_ok :: "fan_worker list \<Rightarrow> go_int chan \<Rightarrow> bool" where
  "drained_ok ws inp \<longleftrightarrow> (\<exists>w \<in> set ws. wk_closing w) \<longrightarrow> chan_closed inp \<and> chan_buf inp = []"

text \<open>A merger leaves its loop only when its worker has closed the channel between them.\<close>

definition mergers_ok :: "fan_merger list \<Rightarrow> fan_worker list \<Rightarrow> bool" where
  "mergers_ok ms ws \<longleftrightarrow>
     length ms \<le> length ws \<and> (\<forall>i < length ms. mg_exited (ms ! i) \<longrightarrow> ws ! i = WDone)"

fun fan_pending_add :: "fan_pc \<Rightarrow> int" where
  "fan_pending_add (FGo k) = 1"
| "fan_pending_add _ = 0"

text \<open>
  The counter is the number of spawned mergers still to call \<open>Done\<close>, plus one while
  \<open>fanIn\<close> stands between \<open>Add(1)\<close> and the \<open>go\<close> statement.
\<close>

definition counter_ok :: "wg_counter \<Rightarrow> fan_merger list \<Rightarrow> fan_pc \<Rightarrow> bool" where
  "counter_ok c ms pc \<longleftrightarrow> sint c = int (length (filter mg_active ms)) + fan_pending_add pc"

text \<open>Where the caller stands fixes how many workers and mergers exist.\<close>

fun pc_ok :: "go_int \<Rightarrow> fan_pc \<Rightarrow> nat \<Rightarrow> nat \<Rightarrow> fan_finalizer \<Rightarrow> bool" where
  "pc_ok n FMake nw nm f \<longleftrightarrow> nw = 0 \<and> nm = 0 \<and> f = FinNone"
| "pc_ok n (FOut i) nw nm f \<longleftrightarrow>
     0 \<le> sint i \<and> sint i \<le> sint n \<and> int nw = sint i \<and> nm = 0 \<and> f = FinNone"
| "pc_ok n (FAdd k) nw nm f \<longleftrightarrow> int nw = sint n \<and> nm = k \<and> k \<le> nw \<and> f = FinNone"
| "pc_ok n (FGo k) nw nm f \<longleftrightarrow> int nw = sint n \<and> nm = k \<and> k < nw \<and> f = FinNone"
| "pc_ok n FFin nw nm f \<longleftrightarrow> int nw = sint n \<and> nm = nw \<and> f = FinNone"
| "pc_ok n FRange nw nm f \<longleftrightarrow> int nw = sint n \<and> nm = nw \<and> f \<noteq> FinNone"
| "pc_ok n FEnd nw nm f \<longleftrightarrow> int nw = sint n \<and> nm = nw \<and> f = FinDone"

text \<open>
  \<open>out\<close> is closed by the finalizer alone, and the finalizer is past \<open>wg.Wait()\<close> only
  when every merger has returned.
\<close>

definition out_ok :: "fan_finalizer \<Rightarrow> fan_merger list \<Rightarrow> bool \<Rightarrow> bool" where
  "out_ok f ms oc \<longleftrightarrow>
     (oc \<longleftrightarrow> f = FinDone) \<and> (f = FinClose \<or> f = FinDone \<longrightarrow> (\<forall>m \<in> set ms. m = MDone))"

definition sender_ok :: "go_int list \<Rightarrow> go_int chan \<Rightarrow> bool" where
  "sender_ok pend inp \<longleftrightarrow> (chan_closed inp \<longrightarrow> pend = [])"

text \<open>
  Every item, wherever it is: still to be sent or queued (counted by its square), held
  by a worker or a merger, or received by the caller.
\<close>

definition fan_items :: "fan_state \<Rightarrow> go_int multiset" where
  "fan_items s =
     image_mset (\<lambda>v. v * v) (mset (fan_pending s) + mset (chan_buf (fan_input s)))
     + sum_list (map wk_item (fan_workers s)) + sum_list (map mg_item (fan_mergers s))
     + mset (fan_received s)"

text \<open>
  What holds in every state an execution reaches. The only statements that can panic
  are \<open>make\<close> with a negative length and \<open>wg.Add(1)\<close> with the counter at its largest value.
\<close>

fun fan_panic_pc :: "fan_pc \<Rightarrow> bool" where
  "fan_panic_pc FMake = True"
| "fan_panic_pc (FAdd k) = True"
| "fan_panic_pc _ = False"

definition fan_inv :: "go_int \<Rightarrow> go_int list \<Rightarrow> fan_state \<Rightarrow> bool" where
  "fan_inv n items s \<longleftrightarrow>
     chans_ok (fan_chans s) (fan_workers s)
     \<and> drained_ok (fan_workers s) (fan_input s)
     \<and> mergers_ok (fan_mergers s) (fan_workers s)
     \<and> pc_ok n (fan_pc s) (length (fan_workers s)) (length (fan_mergers s)) (fan_fin s)
     \<and> out_ok (fan_fin s) (fan_mergers s) (fan_out_closed s)
     \<and> sender_ok (fan_pending s) (fan_input s)
     \<and> fan_items s = image_mset (\<lambda>v. v * v) (mset items)
     \<and> (if fan_panicked s then fan_panic_pc (fan_pc s)
         else counter_ok (fan_wg s) (fan_mergers s) (fan_pc s))"

text \<open>
  The work left in a state: the statements the caller, the finalizer, the workers and
  the mergers have still to run, and the moves every item has still to make on its way
  from the sender to the caller.
\<close>

fun wk_rank :: "fan_worker \<Rightarrow> nat" where
  "wk_rank WRecv = 2"
| "wk_rank (WSend v) = 4"
| "wk_rank WClosing = 1"
| "wk_rank WDone = 0"

fun mg_rank :: "fan_merger \<Rightarrow> nat" where
  "mg_rank MRecv = 2"
| "mg_rank (MSend v) = 3"
| "mg_rank MExit = 1"
| "mg_rank MDone = 0"

fun fin_rank :: "fan_finalizer \<Rightarrow> nat" where
  "fin_rank FinNone = 0"
| "fin_rank FinWait = 2"
| "fin_rank FinClose = 1"
| "fin_rank FinDone = 0"

fun pc_rank :: "go_int \<Rightarrow> fan_pc \<Rightarrow> nat" where
  "pc_rank n FMake = 7 * nat (sint n) + 10"
| "pc_rank n (FOut i) = 3 * nat (sint n - sint i) + 4 * nat (sint n) + 9"
| "pc_rank n (FAdd k) = 4 * (nat (sint n) - k) + 8"
| "pc_rank n (FGo k) = 4 * (nat (sint n) - k) + 7"
| "pc_rank n FFin = 7"
| "pc_rank n FRange = 1"
| "pc_rank n FEnd = 0"

definition fan_todo :: "go_int \<Rightarrow> fan_state \<Rightarrow> nat" where
  "fan_todo n s =
     pc_rank n (fan_pc s) + fin_rank (fan_fin s)
     + sum_list (map wk_rank (fan_workers s)) + sum_list (map mg_rank (fan_mergers s))
     + 4 * length (fan_pending s) + 3 * length (chan_buf (fan_input s))
     + (if chan_closed (fan_input s) then 0 else 1)"

text \<open>\<open>fanIn\<close> over no channels: no worker, no channel, no merger, nothing received.\<close>

definition fan_empty :: "fan_state \<Rightarrow> bool" where
  "fan_empty s \<longleftrightarrow>
     fan_workers s = [] \<and> fan_chans s = [] \<and> fan_mergers s = [] \<and> fan_received s = []"

section \<open>The worker pool\<close>

text \<open>
  Section 6 of the course: \<open>Job\<close> and \<open>Result\<close> are the two structs, \<open>worker\<close> runs
  \<open>for job := range jobs\<close> and sends, for every job, a \<open>Result\<close> holding the job and
  \<open>fmt.Sprintf("Processed: %s", job.Data)\<close>. Nothing in the loop body can fail, and a
  \<open>Result\<close> has no field besides \<open>Job\<close> and \<open>Output\<close>.
\<close>

record Job =
  ID :: go_int
  Data :: string

record Result =
  Job :: Job
  Output :: string

definition process :: "Job \<Rightarrow> Result" where
  "process job = \<lparr>Job = job, Output = ''Processed: '' @ Data job\<rparr>"

text \<open>\<open>fmt.Sprintf("%d", j)\<close>: the decimal digits, with a minus sign for a negative \<open>int\<close>.\<close>

function digits :: "nat \<Rightarrow> string" where
  "digits k = (if k < 10 then [''0123456789'' ! k] else digits (k div 10) @ [''0123456789'' ! (k mod 10)])"
  by pat_completeness auto
termination
  by (relation "measure id") auto

declare digits.simps [simp del]

definition format_int :: "go_int \<Rightarrow> string" where
  "format_int j = (if sint j < 0 then ''-'' @ digits (nat (- sint j)) else digits (nat (sint j)))"

text \<open>\<open>Job{ID: j, Data: fmt.Sprintf("Job %d data", j)}\<close>.\<close>

definition make_job :: "go_int \<Rightarrow> Job" where
  "make_job j = \<lparr>ID = j, Data = ''Job '' @ format_int j @ '' data''\<rparr>"

datatype pool_worker =
    PRecv          \<comment> \<open>at \<open>range jobs\<close>\<close>
  | PSend Result   \<comment> \<open>at \<open>results <- Result{...}\<close>\<close>
  | PReturned      \<comment> \<open>the loop has ended\<close>

text \<open>
  The coordinator in \<open>courseFour\<close>: \<open>for w := 1; w <= 3; w++ { go worker(w, jobs, results) }\<close>,
  \<open>for j := 1; j <= 5; j++ { jobs <- Job{...} }\<close>, \<open>close(jobs)\<close>, and
  \<open>for i := 0; i < 5; i++ { result := <-results }\<close>.
\<close>

datatype pool_pc =
    PSpawn go_int     \<comment> \<open>at the test of the first loop with \<open>w\<close>\<close>
  | PSubmit go_int    \<comment> \<open>at the test of the second loop with \<open>j\<close>, then the send\<close>
  | PClose            \<comment> \<open>at \<open>close(jobs)\<close>\<close>
  | PCollect go_int   \<comment> \<open>at the test of the third loop with \<open>i\<close>, then the receive\<close>
  | PEnd

record pool_state =
  pool_jobs :: "Job chan"
  pool_results :: "Result chan"
  pool_workers :: "pool_worker list"
  pool_pc :: pool_pc
  pool_collected :: "Result list"
  pool_panicked :: bool

datatype pool_event =
    Main        \<comment> \<open>the coordinator's next statement\<close>
  | Worker nat  \<comment> \<open>the next channel operation of the \<open>p\<close>-th worker spawned\<close>

text \<open>\<open>jobs := make(chan Job, 5)\<close> and \<open>results := make(chan Result, 5)\<close>.\<close>

definition pool_init :: pool_state where
  "pool_init = \<lparr>pool_jobs = make_chan 5, pool_results = make_chan 5, pool_workers = [],
                 pool_pc = PSpawn 1, pool_collected = [], pool_panicked = False\<rparr>"

definition pool_main :: "pool_state \<Rightarrow> pool_state option" where
  "pool_main s =
     (case pool_pc s of
        PSpawn w \<Rightarrow>
          if w \<le>s 3
          then Some (s\<lparr>pool_workers := pool_workers s @ [PRecv], pool_pc := PSpawn (w + 1)\<rparr>)
          else Some (s\<lparr>pool_pc := PSubmit 1\<rparr>)
      | PSubmit j \<Rightarrow>
          if j \<le>s 5 then
            (case chan_send (make_job j) (pool_jobs s) of
               SendPanic \<Rightarrow> Some (s\<lparr>pool_panicked := True\<rparr>)
             | SendBlocks \<Rightarrow> None
             | SendOk c \<Rightarrow> Some (s\<lparr>pool_jobs := c, pool_pc := PSubmit (j + 1)\<rparr>))
          else Some (s\<lparr>pool_pc := PClose\<rparr>)
      | PClose \<Rightarrow>
          (case chan_close (pool_jobs s) of
             ClosePanic \<Rightarrow> Some (s\<lparr>pool_panicked := True\<rparr>)
           | CloseOk c \<Rightarrow> Some (s\<lparr>pool_jobs := c, pool_pc := PCollect 0\<rparr>))
      | PCollect i \<Rightarrow>
          if i <s 5 then
            (case chan_recv (pool_results s) of
               RecvBlocks \<Rightarrow> None
             | RecvClosed \<Rightarrow>
                 Some (s\<lparr>pool_collected := pool_collected s @ [\<lparr>Job = \<lparr>ID = 0, Data = []\<rparr>, Output = []\<rparr>],
                         pool_pc := PCollect (i + 1)\<rparr>)
             | RecvVal r c \<Rightarrow>
                 Some (s\<lparr>pool_results := c, pool_collected := pool_collected s @ [r],
                         pool_pc := PCollect (i + 1)\<rparr>))
          else Some (s\<lparr>pool_pc := PEnd\<rparr>)
      | PEnd \<Rightarrow> None)"

definition worker :: "nat \<Rightarrow> pool_state \<Rightarrow> pool_state option" where
  "worker p s =
     (if p < length (pool_workers s) then
        (case pool_workers s ! p of
           PRecv \<Rightarrow>
             (case chan_recv (pool_jobs s) of
                RecvBlocks \<Rightarrow> None
              | RecvClosed \<Rightarrow> Some (s\<lparr>pool_workers := (pool_workers s)[p := PReturned]\<rparr>)
              | RecvVal job c \<Rightarrow>
                  Some (s\<lparr>pool_jobs := c,
                          pool_workers := (pool_workers s)[p := PSend (process job)]\<rparr>))
         | PSend r \<Rightarrow>
             (case chan_send r (pool_results s) of
                SendPanic \<Rightarrow> Some (s\<lparr>pool_panicked := True\<rparr>)
              | SendBlocks \<Rightarrow> None
              | SendOk c \<Rightarrow>
                  Some (s\<lparr>pool_results := c, pool_workers := (pool_workers s)[p := PRecv]\<rparr>))
         | PReturned \<Rightarrow> None)
      else None)"

definition pool_step :: "pool_event \<Rightarrow> pool_state \<Rightarrow> pool_state option" where
  "pool_step e s =
     (if pool_panicked s then None
      else case e of Main \<Rightarrow> pool_main s | Worker p \<Rightarrow> worker p s)"

fun pool_run :: "pool_event list \<Rightarrow> pool_state \<Rightarrow> pool_state option" where
  "pool_run [] s = Some s"
| "pool_run (e # es) s = (case pool_step e s of None \<Rightarrow> None | Some s' \<Rightarrow> pool_run es s')"

text \<open>
  The jobs the second loop has still to submit when its variable is \<open>j\<close>, and the results
  present anywhere in the program: owed for a job not yet processed, held by a worker
  at its send, queued in \<open>results\<close>, or collected.
\<close>

definition jobs_from :: "go_int \<Rightarrow> Job list" where
  "jobs_from j = map (\<lambda>k. make_job (word_of_int k)) [sint j .. 5]"

fun pool_unsent :: "pool_pc \<Rightarrow> Job list" where
  "pool_unsent (PSpawn w) = jobs_from 1"
| "pool_unsent (PSubmit j) = jobs_from j"
| "pool_unsent PClose = []"
| "pool_unsent (PCollect i) = []"
| "pool_unsent PEnd = []"

fun pw_item :: "pool_worker \<Rightarrow> Result multiset" where
  "pw_item PRecv = {#}"
| "pw_item (PSend r) = {#r#}"
| "pw_item PReturned = {#}"

definition pool_items :: "pool_state \<Rightarrow> Result multiset" where
  "pool_items s =
     image_mset process (mset (pool_unsent (pool_pc s)) + mset (chan_buf (pool_jobs s)))
     + sum_list (map pw_item (pool_workers s))
     + mset (chan_buf (pool_results s)) + mset (pool_collected s)"

fun pool_pc_ok :: "pool_pc \<Rightarrow> nat \<Rightarrow> nat \<Rightarrow> bool \<Rightarrow> bool" where
  "pool_pc_ok (PSpawn w) nw nc cl \<longleftrightarrow>
     1 \<le> sint w \<and> sint w \<le> 4 \<and> int nw = sint w - 1 \<and> nc = 0 \<and> \<not> cl"
| "pool_pc_ok (PSubmit j) nw nc cl \<longleftrightarrow> 1 \<le> sint j \<and> sint j \<le> 6 \<and> nw = 3 \<and> nc = 0 \<and> \<not> cl"
| "pool_pc_ok PClose nw nc cl \<longleftrightarrow> nw = 3 \<and> nc = 0 \<and> \<not> cl"
| "pool_pc_ok (PCollect i) nw nc cl \<longleftrightarrow>
     0 \<le> sint i \<and> sint i \<le> 5 \<and> int nc = sint i \<and> nw = 3 \<and> cl"
| "pool_pc_ok PEnd nw nc cl \<longleftrightarrow> nw = 3 \<and> nc = 5 \<and> cl"

definition pool_inv :: "pool_state \<Rightarrow> bool" where
  "pool_inv s \<longleftrightarrow>
     \<not> pool_panicked s
     \<and> chan_cap (pool_jobs s) = 5 \<and> chan_cap (pool_results s) = 5
     \<and> \<not> chan_closed (pool_results s)
     \<and> pool_pc_ok (pool_pc s) (length (pool_workers s)) (length (pool_collected s))
         (chan_closed (pool_jobs s))
     \<and> pool_items s = image_mset process (mset (jobs_from 1))
     \<and> (PReturned \<in> set (pool_workers s) \<longrightarrow>
          chan_closed (pool_jobs s) \<and> chan_buf (pool_jobs s) = [])"

text \<open>The pool is finished: the coordinator is past its last loop and every worker returned.\<close>

definition pool_finished :: "pool_state \<Rightarrow> bool" where
  "pool_finished s \<longleftrightarrow> pool_pc s = PEnd \<and> (\<forall>w \<in> set (pool_workers s). w = PReturned)"

fun pool_pc_rank :: "pool_pc \<Rightarrow> nat" where
  "pool_pc_rank (PSpawn w) = 2 * nat (4 - sint w) + 14"
| "pool_pc_rank (PSubmit j) = nat (6 - sint j) + 8"
| "pool_pc_rank PClose = 7"
| "pool_pc_rank (PCollect i) = nat (5 - sint i) + 1"
| "pool_pc_rank PEnd = 0"

fun pw_rank :: "pool_worker \<Rightarrow> nat" where
  "pw_rank PRecv = 1"
| "pw_rank (PSend r) = 2"
| "pw_rank PReturned = 0"

text \<open>A bound on the number of steps still to run.\<close>

definition pool_todo :: "pool_state \<Rightarrow> nat" where
  "pool_todo s =
     pool_pc_rank (pool_pc s)
     + 2 * (length (pool_unsent (pool_pc s)) + length (chan_buf (pool_jobs s)))
     + sum_list (map pw_rank (pool_workers s))"

section \<open>A receive guarded by a timeout\<close>






















section \<open>Channel primitives: close safety\<close>

lemma processNumbers_closed:
  "chan_closed c \<Longrightarrow> processNumbers c = Some (map (\<lambda>num. (num, num * num)) (chan_buf c))"
proof (induction "chan_buf c" arbitrary: c)
  case Nil
  then show ?case
    by (subst processNumbers.simps) (simp add: chan_recv_def)
next
  case (Cons x xs)
  from Cons.hyps(2) have b: "chan_buf c = x # xs" by simp
  have "processNumbers (c\<lparr>chan_buf := xs\<rparr>)
        = Some (map (\<lambda>num. (num, num * num)) (chan_buf (c\<lparr>chan_buf := xs\<rparr>)))"
    by (rule Cons.hyps(1)) (use Cons.prems in simp_all)
  then show ?case
    by (subst processNumbers.simps) (simp add: chan_recv_def b)
qed

text \<open>
  C7. On every channel, a send after \<open>close\<close> panics (it is never accepted and never
  blocks); a receive on a closed channel with nothing queued returns the closed indicator
  instead of blocking; and the items queued when the channel is closed are still
  delivered, oldest first, to a \<open>range\<close> loop, which then ends.
\<close>

theorem close_safety:
  "(chan_closed c \<longrightarrow> chan_send v c = SendPanic)
   \<and> (chan_closed c \<and> chan_buf c = [] \<longrightarrow> chan_recv c = RecvClosed)
   \<and> (chan_close d = CloseOk d' \<longrightarrow>
        chan_send w d' = SendPanic
        \<and> processNumbers d' = Some (map (\<lambda>num. (num, num * num)) (chan_buf d)))"
proof -
  have "chan_close d = CloseOk d' \<Longrightarrow>
        processNumbers d' = Some (map (\<lambda>num. (num, num * num)) (chan_buf d))"
  proof -
    assume "chan_close d = CloseOk d'"
    then have "chan_closed d'" and "chan_buf d' = chan_buf d"
      by (auto simp: chan_close_def split: if_splits)
    then show ?thesis
      using processNumbers_closed [of d'] by simp
  qed
  then show ?thesis
    by (auto simp: chan_send_def chan_recv_def chan_close_def split: if_splits)
qed

theorem close_safety_witness:
  "chan_closed \<lparr>chan_buf = [], chan_cap = 3, chan_closed = True\<rparr>
   \<and> chan_send (7 :: go_int) \<lparr>chan_buf = [], chan_cap = 3, chan_closed = True\<rparr> = SendPanic
   \<and> chan_close \<lparr>chan_buf = [10, 20], chan_cap = 3, chan_closed = False\<rparr>
       = CloseOk \<lparr>chan_buf = [10, 20], chan_cap = 3, chan_closed = True\<rparr>
   \<and> chan_send (7 :: go_int) \<lparr>chan_buf = [10, 20], chan_cap = 3, chan_closed = True\<rparr> = SendPanic
   \<and> chan_recv \<lparr>chan_buf = ([] :: go_int list), chan_cap = 3, chan_closed = True\<rparr> = RecvClosed
   \<and> processNumbers \<lparr>chan_buf = [10, 20], chan_cap = 3, chan_closed = True\<rparr>
       = Some [(10, 100), (20, 400)]"
  using close_safety [of "\<lparr>chan_buf = [], chan_cap = 3, chan_closed = True\<rparr>" "7 :: go_int"
      "\<lparr>chan_buf = [10, 20], chan_cap = 3, chan_closed = False\<rparr>"
      "\<lparr>chan_buf = [10, 20], chan_cap = 3, chan_closed = True\<rparr>" 7]
  by (simp add: chan_close_def)

section \<open>Lists under a single update\<close>

lemma filter_length_update_nat:
  "i < length xs \<Longrightarrow>
   length (filter P (xs[i := y])) + (if P (xs ! i) then 1 else 0)
   = length (filter P xs) + (if P y then 1 else 0)"
proof (induction xs arbitrary: i)
  case Nil
  then show ?case by simp
next
  case (Cons x xs)
  show ?case
  proof (cases i)
    case 0
    then show ?thesis by simp
  next
    case (Suc j)
    with Cons.prems have "j < length xs" by simp
    from Cons.IH [OF this] Suc show ?thesis by simp
  qed
qed

lemma filter_length_update:
  "i < length xs \<Longrightarrow>
   int (length (filter P (xs[i := y])))
   = int (length (filter P xs)) - (if P (xs ! i) then 1 else 0) + (if P y then 1 else 0)"
  using filter_length_update_nat [of i xs P y] by (simp split: if_splits)

section \<open>Producer and consumer: FIFO delivery\<close>

lemma sint_succ: "sint (i :: go_int) < 9223372036854775807 \<Longrightarrow> sint (i + 1) = sint i + 1"
  using sint_ge [of i]
  by (simp add: sint_word_ariths signed_take_bit_int_eq_self)

lemma sle_max_go_int: "(i :: go_int) \<le>s max_go_int"
  using sint_lt [of i] by (simp add: word_sle_eq max_go_int_def)

lemma sint_below_max: "(cnt :: go_int) \<noteq> max_go_int \<Longrightarrow> sint cnt < 9223372036854775807"
proof -
  assume ne: "cnt \<noteq> max_go_int"
  have "sint cnt \<noteq> 9223372036854775807"
  proof
    assume "sint cnt = 9223372036854775807"
    then have "word_of_int (sint cnt) = (word_of_int 9223372036854775807 :: go_int)" by simp
    then have "cnt = max_go_int" by (simp add: max_go_int_def)
    with ne show False by simp
  qed
  with sint_lt [of cnt] show ?thesis by simp
qed

lemma upto_snoc_word:
  "1 \<le> sint (i :: go_int) \<Longrightarrow>
   map word_of_int [1 .. sint i - 1] @ [i] = (map word_of_int [1 .. sint i] :: go_int list)"
  by (simp add: upto_rec2 [of 1 "sint i"])

lemma pc_inv_init: "pc_inv cnt (pc_init n)"
  by (simp add: pc_inv_def pc_init_def make_chan_def)

lemma pc_inv_step:
  assumes c: "cnt \<noteq> max_go_int" and i: "pc_inv cnt s" and st: "pc_step cnt e s = Some s'"
  shows "pc_inv cnt s'"
proof -
  have up: "pc_i s \<le>s cnt \<Longrightarrow> sint (pc_i s + 1) = sint (pc_i s) + 1 \<and> sint (pc_i s) + 1 \<le> sint cnt + 1"
    using sint_below_max [OF c] by (simp add: word_sle_eq sint_succ)
  have sn: "pc_seen s @ chan_buf (pc_chan s) @ [pc_i s] = map word_of_int [1 .. sint (pc_i s)]"
  proof -
    from i have "1 \<le> sint (pc_i s)"
      and "pc_seen s @ chan_buf (pc_chan s) = map word_of_int [1 .. sint (pc_i s) - 1]"
      by (simp_all add: pc_inv_def)
    then show ?thesis
      using upto_snoc_word [of "pc_i s"] by (simp del: upto.simps flip: append_assoc)
  qed
  show ?thesis
  proof (cases e)
    case Produce
    with i st up sn show ?thesis
      by (auto simp: pc_inv_def pc_step_def producer_def chan_send_def chan_close_def
          split: if_splits)
  next
    case Pass
    with i st up sn show ?thesis
      by (auto simp: pc_inv_def pc_step_def pass_def split: if_splits)
  next
    case Consume
    with i st show ?thesis
      by (auto simp: pc_inv_def pc_step_def consumer_def chan_recv_def
          split: if_splits list.splits)
  qed
qed

lemma pc_inv_run:
  "cnt \<noteq> max_go_int \<Longrightarrow> pc_inv cnt s \<Longrightarrow> pc_run cnt sch s = Some s' \<Longrightarrow> pc_inv cnt s'"
proof (induction sch arbitrary: s)
  case Nil
  then show ?case by simp
next
  case (Cons e es)
  then show ?case
    by (auto split: option.splits dest: pc_inv_step)
qed

lemma pc_run_append:
  "pc_run cnt (a @ b) s = (case pc_run cnt a s of None \<Rightarrow> None | Some s' \<Rightarrow> pc_run cnt b s')"
  by (induction a arbitrary: s) (auto split: option.splits)

lemma pc_inv_prefix:
  assumes "pc_inv cnt s"
  shows "pc_seen s = take (length (pc_seen s)) (one_to cnt)"
proof -
  let ?k = "sint (pc_i s) - 1"
  from assms have a: "pc_seen s @ chan_buf (pc_chan s) = map word_of_int [1 .. ?k]"
    and b: "?k \<le> max 0 (sint cnt)" and b0: "0 \<le> ?k"
    by (auto simp: pc_inv_def)
  have "\<exists>ys. [1 .. sint cnt] = [1 .. ?k] @ ys"
  proof (cases "sint (pc_i s) \<le> sint cnt")
    case True
    with b0 have "[1 .. sint cnt] = [1 .. ?k] @ [sint (pc_i s) .. sint cnt]"
      using upto_split1 [of 1 "sint (pc_i s)" "sint cnt"] by simp
    then show ?thesis by blast
  next
    case False
    have "[1 .. ?k] = [1 .. sint cnt]"
    proof (cases "0 \<le> sint cnt")
      case True
      with b False have "?k = sint cnt" by (simp add: max_def)
      then show ?thesis by simp
    next
      case neg: False
      with b b0 show ?thesis by (simp add: max_def)
    qed
    then show ?thesis by simp
  qed
  then obtain ys where "[1 .. sint cnt] = [1 .. ?k] @ ys" by blast
  then have "one_to cnt = (pc_seen s @ chan_buf (pc_chan s)) @ map word_of_int ys"
    by (simp add: one_to_def a del: upto.simps)
  then show ?thesis by simp
qed

lemma pc_inv_finished:
  assumes "pc_inv cnt s" and "pc_finished s"
  shows "pc_seen s = one_to cnt"
proof -
  from assms have a: "pc_seen s = map word_of_int [1 .. sint (pc_i s) - 1]"
    and r: "sint cnt < sint (pc_i s)" and b: "sint (pc_i s) \<le> max 1 (sint cnt + 1)"
    and l: "1 \<le> sint (pc_i s)"
    by (auto simp: pc_inv_def word_sle_eq)
  show ?thesis
  proof (cases "0 \<le> sint cnt")
    case True
    with r b have "sint (pc_i s) - 1 = sint cnt" by (simp add: max_def split: if_splits)
    with a show ?thesis by (simp add: one_to_def)
  next
    case False
    with r b l have "sint (pc_i s) = 1" by (simp add: max_def)
    with a False show ?thesis by (simp add: one_to_def)
  qed
qed

lemma pc_progress:
  assumes c: "cnt \<noteq> max_go_int" and i: "pc_inv cnt s" and nf: "\<not> pc_finished s"
  shows "\<exists>e s'. pc_step cnt e s = Some s' \<and> pc_todo cnt s' < pc_todo cnt s"
proof -
  have up: "pc_i s \<le>s cnt \<Longrightarrow> sint (pc_i s + 1) = sint (pc_i s) + 1 \<and> sint (pc_i s) \<le> sint cnt"
    using sint_below_max [OF c] by (simp add: word_sle_eq sint_succ)
  consider (queued) x xs where "chan_buf (pc_chan s) = x # xs"
    | (closed) "chan_buf (pc_chan s) = []" "pc_returned s"
    | (send) "chan_buf (pc_chan s) = []" "\<not> pc_returned s" "pc_i s \<le>s cnt"
    | (close) "chan_buf (pc_chan s) = []" "\<not> pc_returned s" "\<not> pc_i s \<le>s cnt"
    by (cases "chan_buf (pc_chan s)") auto
  then show ?thesis
  proof cases
    case queued
    with i nf have "pc_step cnt Consume s
        = Some (s\<lparr>pc_chan := (pc_chan s)\<lparr>chan_buf := xs\<rparr>, pc_seen := pc_seen s @ [x]\<rparr>)"
      by (simp add: pc_step_def consumer_def chan_recv_def pc_inv_def)
    with queued show ?thesis by (fastforce simp: pc_todo_def)
  next
    case closed
    with i nf have "pc_step cnt Consume s = Some (s\<lparr>pc_finished := True\<rparr>)"
      by (simp add: pc_step_def consumer_def chan_recv_def pc_inv_def)
    with nf show ?thesis by (fastforce simp: pc_todo_def)
  next
    case send
    with i nf have "pc_step cnt Pass s
        = Some (s\<lparr>pc_i := pc_i s + 1, pc_seen := pc_seen s @ [pc_i s]\<rparr>)"
      by (simp add: pc_step_def pass_def pc_inv_def)
    moreover have "pc_todo cnt (s\<lparr>pc_i := pc_i s + 1, pc_seen := pc_seen s @ [pc_i s]\<rparr>)
        < pc_todo cnt s"
      using up [OF send(3)] by (simp add: pc_todo_def max_def)
    ultimately show ?thesis by blast
  next
    case close
    with i nf have "pc_step cnt Produce s
        = Some (s\<lparr>pc_chan := (pc_chan s)\<lparr>chan_closed := True\<rparr>, pc_returned := True\<rparr>)"
      by (simp add: pc_step_def producer_def chan_close_def pc_inv_def)
    with close show ?thesis by (fastforce simp: pc_todo_def)
  qed
qed

lemma pc_completes:
  "cnt \<noteq> max_go_int \<Longrightarrow> pc_inv cnt s \<Longrightarrow> \<exists>sch s'. pc_run cnt sch s = Some s' \<and> pc_finished s'"
proof (induction "pc_todo cnt s" arbitrary: s rule: less_induct)
  case less
  show ?case
  proof (cases "pc_finished s")
    case True
    then have "pc_run cnt [] s = Some s \<and> pc_finished s" by simp
    then show ?thesis by blast
  next
    case False
    from pc_progress [OF less.prems False] obtain e s1
      where st: "pc_step cnt e s = Some s1" and lt: "pc_todo cnt s1 < pc_todo cnt s"
      by blast
    from pc_inv_step [OF less.prems st] have "pc_inv cnt s1" .
    from less.hyps [OF lt less.prems(1) this] obtain sch s'
      where "pc_run cnt sch s1 = Some s'" and f: "pc_finished s'"
      by blast
    with st have "pc_run cnt (e # sch) s = Some s'" by simp
    with f show ?thesis by blast
  qed
qed

text \<open>
  For every \<open>count\<close> other than the largest \<open>int\<close>, on a channel of any
  capacity and under every interleaving: nothing panics, what the consumer has printed is
  at every moment an initial segment of \<open>1, ..., count\<close> in the producer's order, a
  consumer whose loop has ended has printed exactly \<open>1, ..., count\<close>, and every
  execution can be continued until the consumer's loop ends.
\<close>

theorem producer_consumer_fifo:
  assumes "cnt \<noteq> max_go_int" and "pc_run cnt sch (pc_init n) = Some s"
  shows "\<not> pc_panicked s
    \<and> pc_seen s = take (length (pc_seen s)) (one_to cnt)
    \<and> (pc_finished s \<longrightarrow> pc_seen s = one_to cnt)
    \<and> (\<exists>sch' s'. pc_run cnt sch' s = Some s' \<and> pc_finished s' \<and> pc_seen s' = one_to cnt)"
proof -
  have i: "pc_inv cnt s"
    using pc_inv_run [OF assms(1) pc_inv_init assms(2)] .
  from pc_completes [OF assms(1) i] obtain sch' s'
    where r: "pc_run cnt sch' s = Some s'" and f: "pc_finished s'" by blast
  have "pc_inv cnt s'" using pc_inv_run [OF assms(1) i r] .
  with f have "pc_seen s' = one_to cnt" using pc_inv_finished by blast
  with r f have "\<exists>sch' s'. pc_run cnt sch' s = Some s' \<and> pc_finished s' \<and> pc_seen s' = one_to cnt"
    by blast
  with i show ?thesis
    using pc_inv_prefix [OF i] pc_inv_finished [OF i] by (simp add: pc_inv_def)
qed


theorem producer_consumer_fifo_witness:
  "(5 :: go_int) \<noteq> max_go_int
   \<and> pc_run 5 [Pass, Pass, Pass, Pass, Pass, Produce, Consume] (pc_init 0)
       = Some \<lparr>pc_chan = \<lparr>chan_buf = [], chan_cap = 0, chan_closed = True\<rparr>, pc_i = 6,
           pc_returned = True, pc_seen = [1, 2, 3, 4, 5], pc_finished = True,
           pc_panicked = False\<rparr>
   \<and> one_to 5 = [1, 2, 3, 4, 5]"
proof -
  have ne: "(5 :: go_int) \<noteq> max_go_int"
    by (simp add: max_go_int_def)
  have r: "pc_run 5 [Pass, Pass, Pass, Pass, Pass, Produce, Consume] (pc_init 0)
       = Some \<lparr>pc_chan = \<lparr>chan_buf = [], chan_cap = 0, chan_closed = True\<rparr>, pc_i = 6,
           pc_returned = True, pc_seen = [1, 2, 3, 4, 5], pc_finished = True,
           pc_panicked = False\<rparr>"
    by (simp add: pc_init_def make_chan_def pc_step_def pass_def producer_def consumer_def
        chan_close_def chan_recv_def word_sle_eq)
  from producer_consumer_fifo [OF ne r]
  have "pc_finished \<lparr>pc_chan = \<lparr>chan_buf = [], chan_cap = 0, chan_closed = True\<rparr>, pc_i = 6,
           pc_returned = True, pc_seen = [1, 2, 3, 4, 5], pc_finished = True,
           pc_panicked = False\<rparr>
     \<longrightarrow> pc_seen \<lparr>pc_chan = \<lparr>chan_buf = [], chan_cap = 0, chan_closed = True\<rparr>, pc_i = 6,
           pc_returned = True, pc_seen = [1, 2, 3, 4, 5], pc_finished = True,
           pc_panicked = False\<rparr> = one_to 5"
    by blast
  then have "one_to 5 = [1, 2, 3, 4, 5]" by simp
  with ne r show ?thesis by simp
qed

lemma pass_forever:
  "\<not> pc_panicked s \<Longrightarrow> \<not> pc_returned s \<Longrightarrow> \<not> pc_finished s \<Longrightarrow>
   \<not> chan_closed (pc_chan s) \<Longrightarrow> chan_buf (pc_chan s) = [] \<Longrightarrow>
   pc_run max_go_int (replicate k Pass) s
   = Some (s\<lparr>pc_i := pc_i s + word_of_nat k,
             pc_seen := pc_seen s @ map (\<lambda>j. pc_i s + word_of_nat j) [0..<k]\<rparr>)"
proof (induction k arbitrary: s)
  case 0
  then show ?case by simp
next
  case (Suc k)
  let ?s1 = "s\<lparr>pc_i := pc_i s + 1, pc_seen := pc_seen s @ [pc_i s]\<rparr>"
  from Suc.prems have st: "pc_step max_go_int Pass s = Some ?s1"
    by (simp add: pc_step_def pass_def sle_max_go_int)
  have "pc_run max_go_int (replicate k Pass) ?s1
        = Some (?s1\<lparr>pc_i := pc_i ?s1 + word_of_nat k,
             pc_seen := pc_seen ?s1 @ map (\<lambda>j. pc_i ?s1 + word_of_nat j) [0..<k]\<rparr>)"
    by (rule Suc.IH) (use Suc.prems in simp_all)
  moreover have "map (\<lambda>j. pc_i s + word_of_nat j) [0..<Suc k]
        = pc_i s # map (\<lambda>j. pc_i s + 1 + word_of_nat j) [0..<k]"
    by (simp add: upt_conv_Cons map_Suc_upt [symmetric] add.assoc del: upt_Suc)
  ultimately show ?case
    using st by (simp add: add.assoc del: upt_Suc)
qed

text \<open>
  C3. The consumer is to observe exactly \<open>1, ..., count\<close>, in order, for every \<open>count\<close>.
  With \<open>count\<close> the largest \<open>int\<close> the producer does not do its part: the loop test
  \<open>i <= count\<close> never fails, because \<open>i++\<close> wraps around to the smallest \<open>int\<close>. After
  \<open>2 ^ 63\<close> hand-overs on an unbuffered channel the consumer has printed \<open>2 ^ 63\<close> values,
  the last of them the wrapped-around smallest \<open>int\<close>, although \<open>1, ..., count\<close> has only
  \<open>2 ^ 63 - 1\<close> members; the producer has not returned and the channel is not closed.
\<close>

theorem producer_max_count_overflow:
  "pc_run max_go_int (replicate (2 ^ 63) Pass) (pc_init 0)
   = Some \<lparr>pc_chan = \<lparr>chan_buf = [], chan_cap = 0, chan_closed = False\<rparr>,
       pc_i = - 9223372036854775807, pc_returned = False,
       pc_seen = map (\<lambda>j. 1 + word_of_nat j) [0..<2 ^ 63], pc_finished = False,
       pc_panicked = False\<rparr>
   \<and> length (one_to max_go_int) = 2 ^ 63 - 1
   \<and> (1 + word_of_nat (2 ^ 63 - 1) :: go_int) = - 9223372036854775808"
proof -
  have "pc_run max_go_int (replicate (2 ^ 63) Pass) (pc_init 0)
      = Some ((pc_init 0)\<lparr>pc_i := pc_i (pc_init 0) + word_of_nat (2 ^ 63),
           pc_seen := pc_seen (pc_init 0)
             @ map (\<lambda>j. pc_i (pc_init 0) + word_of_nat j) [0..<2 ^ 63]\<rparr>)"
    by (rule pass_forever) (simp_all add: pc_init_def make_chan_def)
  then have "pc_run max_go_int (replicate (2 ^ 63) Pass) (pc_init 0)
   = Some \<lparr>pc_chan = \<lparr>chan_buf = [], chan_cap = 0, chan_closed = False\<rparr>,
       pc_i = - 9223372036854775807, pc_returned = False,
       pc_seen = map (\<lambda>j. 1 + word_of_nat j) [0..<2 ^ 63], pc_finished = False,
       pc_panicked = False\<rparr>"
    by (simp add: pc_init_def make_chan_def)
  moreover have "length (one_to max_go_int) = 2 ^ 63 - 1"
    by (simp add: one_to_def max_go_int_def)
  moreover have "(1 + word_of_nat (2 ^ 63 - 1) :: go_int) = - 9223372036854775808"
    by simp
  ultimately show ?thesis by blast
qed

section \<open>WaitGroup: the join of the download tasks\<close>

lemma ucast_minus_one: "(ucast (- 1 :: go_int) :: wg_counter) = - 1"
  by (rule bit_word_eqI) (auto simp add: bit_simps)

lemma sint_counter_zero: "sint (c :: wg_counter) = 0 \<longleftrightarrow> c = 0"
proof
  assume "sint c = 0"
  then have "word_of_int (sint c) = (word_of_int 0 :: wg_counter)" by (rule arg_cong)
  then show "c = 0" by simp
next
  assume "c = 0"
  then show "sint c = 0" by simp
qed

lemma wg_add_one:
  "0 \<le> sint c \<Longrightarrow> sint c < 2147483647 \<Longrightarrow> wg_add 1 c = WgOk (c + 1) \<and> sint (c + 1) = sint c + 1"
proof -
  assume a: "0 \<le> sint c" "sint c < 2147483647"
  then have "sint (c + 1) = sint c + 1"
    by (simp add: sint_word_ariths signed_take_bit_int_eq_self)
  with a show ?thesis by (simp add: wg_add_def word_sless_alt)
qed

lemma wg_add_one_overflow: "sint c = 2147483647 \<Longrightarrow> wg_add 1 c = WgPanic (c + 1)"
proof -
  assume a: "sint c = 2147483647"
  then have "word_of_int (sint c) = (word_of_int 2147483647 :: wg_counter)" by simp
  then have "c = 2147483647" by simp
  then show ?thesis by (simp add: wg_add_def word_sless_alt)
qed

lemma wg_done_positive:
  "1 \<le> sint c \<Longrightarrow> wg_done c = WgOk (c - 1) \<and> sint (c - 1) = sint c - 1"
proof -
  assume a: "1 \<le> sint c"
  have "sint (c - 1) = sint c - 1"
    using a sint_lt [of c] by (simp add: sint_word_ariths signed_take_bit_int_eq_self)
  with a show ?thesis by (simp add: wg_done_def wg_add_def word_sless_alt ucast_minus_one)
qed

lemma dl_rank_update:
  "i < length ts \<Longrightarrow> dl_task_rank t < dl_task_rank (ts ! i) \<Longrightarrow>
   sum_list (map dl_task_rank (ts[i := t])) < sum_list (map dl_task_rank ts)"
proof (induction ts arbitrary: i)
  case Nil
  then show ?case by simp
next
  case (Cons x xs)
  then show ?case by (cases i) auto
qed

lemma map_fst_set_task:
  "p < length ts \<Longrightarrow> map fst (ts[p := (fst (ts ! p), t)]) = map fst ts"
  by (simp add: map_update list_update_same_conv)

lemma dl_pending_nonneg: "0 \<le> dl_pending pc"
  by (cases pc) simp_all

lemma active_positive:
  "p < length ts \<Longrightarrow> dl_active (ts ! p) \<Longrightarrow> 1 \<le> int (length (filter dl_active ts))"
proof -
  assume "p < length ts" and a: "dl_active (ts ! p)"
  then have "ts ! p \<in> set (filter dl_active ts)" by simp
  then have "filter dl_active ts \<noteq> []" by (metis empty_iff empty_set)
  then show ?thesis by (cases "filter dl_active ts") simp_all
qed

lemma dl_inv_init: "dl_inv K dl_init"
  by (simp add: dl_inv_def dl_init_def dl_counter_ok_def)

lemma ids_at_exit:
  assumes "1 \<le> sint (i :: go_int)" and "sint i \<le> max 1 (sint K + 1)" and "\<not> i \<le>s K"
  shows "map word_of_int [1 .. sint i - 1] = one_to K"
proof (cases "0 \<le> sint K")
  case True
  with assms have "sint i - 1 = sint K" by (simp add: max_def word_sle_eq split: if_splits)
  then show ?thesis by (simp add: one_to_def)
next
  case False
  with assms have "sint i = 1" by (simp add: max_def)
  with False show ?thesis by (simp add: one_to_def)
qed

lemma dl_inv_coordinator:
  assumes b: "sint K < 2 ^ 31" and i: "dl_inv K s" and st: "coordinator K s = Some s'"
  shows "dl_inv K s'"
proof (cases "dl_pc s")
  case (DAdd k)
  from i DAdd have k: "1 \<le> sint k" "sint k \<le> max 1 (sint K + 1)"
    and ids: "map fst (dl_tasks s) = map word_of_int [1 .. sint k - 1]"
    and c: "sint (dl_wg s) = int (length (filter dl_active (dl_tasks s)))"
    and np: "\<not> dl_panicked s"
    and out: "count_list (dl_out s) AllComplete = 0"
    by (simp_all add: dl_inv_def dl_counter_ok_def)
  show ?thesis
  proof (cases "k \<le>s K")
    case True
    then have kK: "sint k \<le> sint K" by (simp add: word_sle_eq)
    have "length (filter dl_active (dl_tasks s)) \<le> length (map fst (dl_tasks s))" by simp
    also have "\<dots> = nat (sint k - 1)" by (simp add: ids del: upto.simps)
    finally have "int (length (filter dl_active (dl_tasks s))) \<le> sint k - 1" using k by simp
    with c kK b have r: "0 \<le> sint (dl_wg s)" "sint (dl_wg s) < 2147483647" by simp_all
    note a = wg_add_one [OF r]
    from st DAdd True a have s': "s' = s\<lparr>dl_wg := dl_wg s + 1, dl_pc := DGo k\<rparr>"
      by (simp add: coordinator_def)
    from a c k kK ids np out show ?thesis
      unfolding s' by (simp add: dl_inv_def dl_counter_ok_def)
  next
    case False
    with st DAdd have s': "s' = s\<lparr>dl_pc := DWait\<rparr>" by (simp add: coordinator_def)
    from ids_at_exit [OF k False] ids c np out show ?thesis
      unfolding s' by (simp add: dl_inv_def dl_counter_ok_def)
  qed
next
  case (DGo k)
  from i DGo have k: "1 \<le> sint k" "sint k \<le> sint K"
    and ids: "map fst (dl_tasks s) = map word_of_int [1 .. sint k - 1]"
    and c: "sint (dl_wg s) = int (length (filter dl_active (dl_tasks s))) + 1"
    and np: "\<not> dl_panicked s"
    and out: "count_list (dl_out s) AllComplete = 0"
    by (simp_all add: dl_inv_def dl_counter_ok_def)
  from st DGo have s': "s' = s\<lparr>dl_tasks := dl_tasks s @ [(k, TSpawned)], dl_pc := DAdd (k + 1)\<rparr>"
    by (simp add: coordinator_def)
  from k b have sk: "sint (k + 1) = sint k + 1" by (simp add: sint_succ)
  from ids k have ids': "map fst (dl_tasks s) @ [k] = map word_of_int [1 .. sint k]"
    using upto_snoc_word [of k] by simp
  from sk k ids' c np out show ?thesis
    unfolding s' by (simp add: dl_inv_def dl_counter_ok_def max_def del: upto.simps)
next
  case DWait
  with st have z: "dl_wg s = 0"
    and s': "s' = s\<lparr>dl_pc := DDone, dl_out := dl_out s @ [AllComplete]\<rparr>"
    by (auto simp: coordinator_def wg_wait_def split: if_splits)
  from i DWait have "dl_counter_ok s" "map fst (dl_tasks s) = one_to K" "\<not> dl_panicked s"
    "count_list (dl_out s) AllComplete = 0"
    by (simp_all add: dl_inv_def)
  with z DWait show ?thesis
    unfolding s' by (simp add: dl_inv_def dl_counter_ok_def)
next
  case DDone
  with st show ?thesis by (simp add: coordinator_def)
qed

lemma task_ofD: "task_of s p = Some t \<Longrightarrow> p < length (dl_tasks s) \<and> dl_tasks s ! p = t"
  by (auto simp: task_of_def split: if_splits)

lemma dl_inv_set_task:
  assumes i: "dl_inv K s" and t: "task_of s p = Some (ident, t)"
    and a: "dl_active (ident, t)" "dl_active (ident, t')" and l: "l \<noteq> AllComplete"
  shows "dl_inv K (set_task p t' (s\<lparr>dl_out := dl_out s @ [l]\<rparr>))"
proof -
  note d = task_ofD [OF t]
  from d a have "1 \<le> int (length (filter dl_active (dl_tasks s)))"
    using active_positive [of p "dl_tasks s"] by simp
  with dl_pending_nonneg [of "dl_pc s"] i have nd: "dl_pc s \<noteq> DDone"
    by (auto simp: dl_inv_def dl_counter_ok_def)
  from d have f: "map fst ((dl_tasks s)[p := (ident, t')]) = map fst (dl_tasks s)"
    using map_fst_set_task [of p "dl_tasks s" t'] by simp
  from i d a l nd f show ?thesis
    by (simp add: dl_inv_def dl_counter_ok_def set_task_def filter_length_update)
qed

lemma dl_inv_task:
  assumes i: "dl_inv K s" and st: "downloadFile e s = Some s'"
  shows "dl_inv K s'"
proof (cases e)
  case Coordinator
  with st show ?thesis by (simp add: downloadFile_def)
next
  case (TaskStart p)
  with st obtain ident where t: "task_of s p = Some (ident, TSpawned)"
    and s': "s' = set_task p TSleeping (s\<lparr>dl_out := dl_out s @ [Downloading ident]\<rparr>)"
    by (auto simp: downloadFile_def split: option.splits dl_task.splits)
  show ?thesis unfolding s' by (rule dl_inv_set_task [OF i t]) simp_all
next
  case (TaskEnd p)
  with st obtain ident where t: "task_of s p = Some (ident, TSleeping)"
    and s': "s' = set_task p TDeferred (s\<lparr>dl_out := dl_out s @ [Downloaded ident]\<rparr>)"
    by (auto simp: downloadFile_def split: option.splits dl_task.splits)
  show ?thesis unfolding s' by (rule dl_inv_set_task [OF i t]) simp_all
next
  case (TaskDone p)
  with st obtain ident where t: "task_of s p = Some (ident, TDeferred)"
    by (auto simp: downloadFile_def split: option.splits dl_task.splits)
  note d = task_ofD [OF t]
  from d have pos: "1 \<le> int (length (filter dl_active (dl_tasks s)))"
    using active_positive [of p "dl_tasks s"] by simp
  from i have w: "sint (dl_wg s) = int (length (filter dl_active (dl_tasks s))) + dl_pending (dl_pc s)"
    by (simp add: dl_inv_def dl_counter_ok_def)
  from w dl_pending_nonneg [of "dl_pc s"] pos have ge: "1 \<le> sint (dl_wg s)" by simp
  note a = wg_done_positive [OF ge]
  with TaskDone st t have s': "s' = set_task p TFinished (s\<lparr>dl_wg := dl_wg s - 1\<rparr>)"
    by (simp add: downloadFile_def)
  from i ge have nd: "dl_pc s \<noteq> DDone" by (auto simp: dl_inv_def)
  from d have f: "map fst ((dl_tasks s)[p := (ident, TFinished)]) = map fst (dl_tasks s)"
    using map_fst_set_task [of p "dl_tasks s" TFinished] by simp
  from i d nd a w f show ?thesis
    unfolding s' by (simp add: dl_inv_def dl_counter_ok_def set_task_def filter_length_update)
qed

lemma dl_inv_step:
  assumes b: "sint K < 2 ^ 31" and i: "dl_inv K s" and st: "dl_step K e s = Some s'"
  shows "dl_inv K s'"
proof (cases e)
  case Coordinator
  with st have "coordinator K s = Some s'" by (simp add: dl_step_def split: if_splits)
  with b i show ?thesis by (rule dl_inv_coordinator)
next
  case (TaskStart k)
  with st have "downloadFile e s = Some s'" by (simp add: dl_step_def split: if_splits)
  with i show ?thesis by (rule dl_inv_task)
next
  case (TaskEnd k)
  with st have "downloadFile e s = Some s'" by (simp add: dl_step_def split: if_splits)
  with i show ?thesis by (rule dl_inv_task)
next
  case (TaskDone k)
  with st have "downloadFile e s = Some s'" by (simp add: dl_step_def split: if_splits)
  with i show ?thesis by (rule dl_inv_task)
qed

lemma dl_inv_run:
  "sint K < 2 ^ 31 \<Longrightarrow> dl_inv K s \<Longrightarrow> dl_run K sch s = Some s' \<Longrightarrow> dl_inv K s'"
proof (induction sch arbitrary: s)
  case Nil
  then show ?case by simp
next
  case (Cons e es)
  from Cons.prems(3) obtain s1 where st: "dl_step K e s = Some s1"
    and r: "dl_run K es s1 = Some s'"
    by (auto split: option.splits)
  from dl_inv_step [OF Cons.prems(1,2) st] have "dl_inv K s1" .
  from Cons.IH [OF Cons.prems(1) this r] show ?case .
qed


lemma dl_progress:
  assumes b: "sint K < 2 ^ 31" and i: "dl_inv K s" and nd: "dl_pc s \<noteq> DDone"
  shows "\<exists>e s'. dl_step K e s = Some s' \<and> dl_todo K s' < dl_todo K s"
proof -
  from i have np: "\<not> dl_panicked s" and ok: "dl_pc_ok K (dl_pc s) (map fst (dl_tasks s))"
    and w: "sint (dl_wg s) = int (length (filter dl_active (dl_tasks s))) + dl_pending (dl_pc s)"
    by (simp_all add: dl_inv_def dl_counter_ok_def)
  show ?thesis
  proof (cases "dl_pc s")
    case (DAdd k)
    show ?thesis
    proof (cases "k \<le>s K")
      case True
      then have kK: "sint k \<le> sint K" by (simp add: word_sle_eq)
      from ok DAdd have k: "1 \<le> sint k"
        and ids: "map fst (dl_tasks s) = map word_of_int [1 .. sint k - 1]"
        by simp_all
      have "length (filter dl_active (dl_tasks s)) \<le> length (map fst (dl_tasks s))" by simp
      also have "\<dots> = nat (sint k - 1)" by (simp add: ids del: upto.simps)
      finally have "int (length (filter dl_active (dl_tasks s))) \<le> sint k - 1" using k by simp
      with w DAdd kK b have r: "0 \<le> sint (dl_wg s)" "sint (dl_wg s) < 2147483647" by simp_all
      note a = wg_add_one [OF r]
      with DAdd np True have "dl_step K Coordinator s = Some (s\<lparr>dl_wg := dl_wg s + 1, dl_pc := DGo k\<rparr>)"
        by (simp add: dl_step_def coordinator_def)
      moreover from DAdd have "dl_todo K (s\<lparr>dl_wg := dl_wg s + 1, dl_pc := DGo k\<rparr>) < dl_todo K s"
        by (simp add: dl_todo_def)
      ultimately show ?thesis by blast
    next
      case False
      with DAdd np have "dl_step K Coordinator s = Some (s\<lparr>dl_pc := DWait\<rparr>)"
        by (simp add: dl_step_def coordinator_def)
      moreover from DAdd have "dl_todo K (s\<lparr>dl_pc := DWait\<rparr>) < dl_todo K s"
        by (simp add: dl_todo_def)
      ultimately show ?thesis by blast
    qed
  next
    case (DGo k)
    with np have "dl_step K Coordinator s
        = Some (s\<lparr>dl_tasks := dl_tasks s @ [(k, TSpawned)], dl_pc := DAdd (k + 1)\<rparr>)"
      by (simp add: dl_step_def coordinator_def)
    moreover from ok DGo have k: "1 \<le> sint k" "sint k \<le> sint K" by simp_all
    with b have "sint (k + 1) = sint k + 1" by (simp add: sint_succ)
    with DGo k
    have "dl_todo K (s\<lparr>dl_tasks := dl_tasks s @ [(k, TSpawned)], dl_pc := DAdd (k + 1)\<rparr>) < dl_todo K s"
      by (simp add: dl_todo_def max_def)
    ultimately show ?thesis by blast
  next
    case DWait
    show ?thesis
    proof (cases "dl_wg s = 0")
      case True
      with DWait np have "dl_step K Coordinator s
          = Some (s\<lparr>dl_pc := DDone, dl_out := dl_out s @ [AllComplete]\<rparr>)"
        by (simp add: dl_step_def coordinator_def wg_wait_def)
      moreover from DWait have "dl_todo K (s\<lparr>dl_pc := DDone, dl_out := dl_out s @ [AllComplete]\<rparr>)
          < dl_todo K s"
        by (simp add: dl_todo_def)
      ultimately show ?thesis by blast
    next
      case False
      then have "sint (dl_wg s) \<noteq> 0" by (simp add: sint_counter_zero)
      with w DWait have "filter dl_active (dl_tasks s) \<noteq> []" by auto
      then obtain t where "t \<in> set (dl_tasks s)" and a: "dl_active t"
        by (auto simp: filter_empty_conv)
      then obtain p where p: "p < length (dl_tasks s)" and t: "dl_tasks s ! p = t"
        by (auto simp: in_set_conv_nth)
      obtain ident st where tt: "t = (ident, st)" by (cases t)
      from p t tt have tk: "task_of s p = Some (ident, st)" by (simp add: task_of_def)
      from p t a have "1 \<le> int (length (filter dl_active (dl_tasks s)))"
        using active_positive [of p "dl_tasks s"] by simp
      with w DWait have w1: "1 \<le> sint (dl_wg s)" by simp
      show ?thesis
      proof (cases st)
        case TSpawned
        with tk np have "dl_step K (TaskStart p) s
            = Some (set_task p TSleeping (s\<lparr>dl_out := dl_out s @ [Downloading ident]\<rparr>))"
          by (simp add: dl_step_def downloadFile_def)
        moreover from TSpawned p t tt
        have "dl_todo K (set_task p TSleeping (s\<lparr>dl_out := dl_out s @ [Downloading ident]\<rparr>))
            < dl_todo K s"
          by (simp add: dl_todo_def set_task_def dl_rank_update)
        ultimately show ?thesis by blast
      next
        case TSleeping
        with tk np have "dl_step K (TaskEnd p) s
            = Some (set_task p TDeferred (s\<lparr>dl_out := dl_out s @ [Downloaded ident]\<rparr>))"
          by (simp add: dl_step_def downloadFile_def)
        moreover from TSleeping p t tt
        have "dl_todo K (set_task p TDeferred (s\<lparr>dl_out := dl_out s @ [Downloaded ident]\<rparr>))
            < dl_todo K s"
          by (simp add: dl_todo_def set_task_def dl_rank_update)
        ultimately show ?thesis by blast
      next
        case TDeferred
        with tk np wg_done_positive [OF w1] have "dl_step K (TaskDone p) s
            = Some (set_task p TFinished (s\<lparr>dl_wg := dl_wg s - 1\<rparr>))"
          by (simp add: dl_step_def downloadFile_def)
        moreover from TDeferred p t tt
        have "dl_todo K (set_task p TFinished (s\<lparr>dl_wg := dl_wg s - 1\<rparr>)) < dl_todo K s"
          by (simp add: dl_todo_def set_task_def dl_rank_update)
        ultimately show ?thesis by blast
      next
        case TFinished
        with a tt show ?thesis by simp
      qed
    qed
  next
    case DDone
    with nd show ?thesis by simp
  qed
qed

lemma dl_completes:
  "sint K < 2 ^ 31 \<Longrightarrow> dl_inv K s \<Longrightarrow> \<exists>sch s'. dl_run K sch s = Some s' \<and> dl_pc s' = DDone"
proof (induction "dl_todo K s" arbitrary: s rule: less_induct)
  case less
  show ?case
  proof (cases "dl_pc s = DDone")
    case True
    then have "dl_run K [] s = Some s \<and> dl_pc s = DDone" by simp
    then show ?thesis by blast
  next
    case False
    from dl_progress [OF less.prems False] obtain e s1
      where st: "dl_step K e s = Some s1" and lt: "dl_todo K s1 < dl_todo K s"
      by blast
    from dl_inv_step [OF less.prems st] have "dl_inv K s1" .
    from less.hyps [OF lt less.prems(1) this] obtain sch s'
      where "dl_run K sch s1 = Some s'" and f: "dl_pc s' = DDone"
      by blast
    with st have "dl_run K (e # sch) s = Some s'" by simp
    with f show ?thesis by blast
  qed
qed

lemma dl_inv_joined:
  assumes i: "dl_inv K s" and d: "dl_pc s = DDone"
  shows "map fst (dl_tasks s) = one_to K \<and> (\<forall>t \<in> set (dl_tasks s). snd t = TFinished)"
proof -
  from i d have l: "map fst (dl_tasks s) = one_to K" and z: "dl_wg s = 0"
    unfolding dl_inv_def by (cases "dl_pc s"; blast | simp)+
  from i have w: "sint (dl_wg s) = int (length (filter dl_active (dl_tasks s))) + dl_pending (dl_pc s)"
    by (simp add: dl_inv_def dl_counter_ok_def)
  from w z d have "length (filter dl_active (dl_tasks s)) = 0" by simp
  then have "filter dl_active (dl_tasks s) = []" by simp
  then have "\<forall>t \<in> set (dl_tasks s). \<not> dl_active t" by (simp add: filter_empty_conv)
  moreover have "\<And>t. \<not> dl_active t \<Longrightarrow> snd t = TFinished"
  proof -
    fix t :: "go_int \<times> dl_task"
    obtain ident st where "t = (ident, st)" by (cases t)
    then show "\<not> dl_active t \<Longrightarrow> snd t = TFinished" by (cases st) simp_all
  qed
  ultimately show ?thesis using l by blast
qed


text \<open>
  C5 (amended). For every number \<open>K\<close> of tasks up to \<open>2 ^ 31 - 1\<close>, each registered with
  \<open>Add(1)\<close> before it is spawned and calling \<open>Done()\<close> once when it returns: under every
  interleaving nothing panics; once \<open>Wait()\<close> has returned, the tasks \<open>1, ..., K\<close> are
  all spawned and finished; the line after \<open>Wait()\<close> is printed exactly once then and not
  at all before; and every execution can be continued until \<open>Wait()\<close> returns.
\<close>

theorem waitgroup_join:
  assumes "sint K < 2 ^ 31" and "dl_run K sch dl_init = Some s"
  shows "\<not> dl_panicked s
    \<and> (dl_pc s = DDone \<longrightarrow>
         map fst (dl_tasks s) = one_to K \<and> (\<forall>t \<in> set (dl_tasks s). snd t = TFinished))
    \<and> count_list (dl_out s) AllComplete = (if dl_pc s = DDone then 1 else 0)
    \<and> (\<exists>sch' s'. dl_run K sch' s = Some s' \<and> dl_pc s' = DDone)"
proof -
  have i: "dl_inv K s"
    using dl_inv_run [OF assms(1) dl_inv_init assms(2)] .
  then have "count_list (dl_out s) AllComplete = (if dl_pc s = DDone then 1 else 0)"
    and "\<not> dl_panicked s"
    by (simp_all add: dl_inv_def)
  with dl_inv_joined [OF i] dl_completes [OF assms(1) i] show ?thesis by blast
qed

theorem waitgroup_join_witness:
  "sint (3 :: go_int) < 2 ^ 31
   \<and> dl_run 3 [Coordinator, Coordinator, TaskStart 0, Coordinator, Coordinator, TaskEnd 0,
       TaskDone 0, Coordinator, Coordinator, Coordinator, TaskStart 2, TaskStart 1, TaskEnd 2,
       TaskEnd 1, TaskDone 1, TaskDone 2, Coordinator] dl_init
     = Some \<lparr>dl_wg = 0, dl_pc = DDone,
         dl_tasks = [(1, TFinished), (2, TFinished), (3, TFinished)],
         dl_out = [Downloading 1, Downloaded 1, Downloading 3, Downloading 2, Downloaded 3,
           Downloaded 2, AllComplete],
         dl_panicked = False\<rparr>
   \<and> one_to 3 = [1, 2, 3]
   \<and> count_list [Downloading 1, Downloaded 1, Downloading 3, Downloading 2, Downloaded 3,
           Downloaded 2, AllComplete] AllComplete = 1"
proof -
  have b: "sint (3 :: go_int) < 2 ^ 31" by simp
  have r: "dl_run 3 [Coordinator, Coordinator, TaskStart 0, Coordinator, Coordinator, TaskEnd 0,
       TaskDone 0, Coordinator, Coordinator, Coordinator, TaskStart 2, TaskStart 1, TaskEnd 2,
       TaskEnd 1, TaskDone 1, TaskDone 2, Coordinator] dl_init
     = Some \<lparr>dl_wg = 0, dl_pc = DDone,
         dl_tasks = [(1, TFinished), (2, TFinished), (3, TFinished)],
         dl_out = [Downloading 1, Downloaded 1, Downloading 3, Downloading 2, Downloaded 3,
           Downloaded 2, AllComplete],
         dl_panicked = False\<rparr>"
    by code_simp
  from waitgroup_join [OF b r] have "one_to 3 = [1, 2, 3]" by simp
  with b r show ?thesis by simp
qed

lemma dl_run_append:
  "dl_run K (a @ b) s = (case dl_run K a s of None \<Rightarrow> None | Some s' \<Rightarrow> dl_run K b s')"
  by (induction a arbitrary: s) (auto split: option.splits)

lemma sint_of_nat_go_int: "n < 2 ^ 63 \<Longrightarrow> sint (word_of_nat n :: go_int) = int n"
  by (simp add: signed_of_nat signed_take_bit_int_eq_self)

lemma sint_of_nat_counter: "n < 2 ^ 31 \<Longrightarrow> sint (word_of_nat n :: wg_counter) = int n"
  by (simp add: signed_of_nat signed_take_bit_int_eq_self)

lemma spawn_without_finishing:
  "n < 2 ^ 31 \<Longrightarrow> int n \<le> sint K \<Longrightarrow>
   dl_run K (replicate (2 * n) Coordinator) dl_init
   = Some \<lparr>dl_wg = word_of_nat n, dl_pc = DAdd (1 + word_of_nat n),
       dl_tasks = map (\<lambda>j. (1 + word_of_nat j, TSpawned)) [0..<n], dl_out = [],
       dl_panicked = False\<rparr>"
proof (induction n)
  case 0
  then show ?case by (simp add: dl_init_def)
next
  case (Suc n)
  let ?s = "\<lparr>dl_wg = word_of_nat n, dl_pc = DAdd (1 + word_of_nat n),
       dl_tasks = map (\<lambda>j. (1 + word_of_nat j, TSpawned)) [0..<n], dl_out = [],
       dl_panicked = False\<rparr>"
  from Suc.prems have n: "n < 2 ^ 31" "int n \<le> sint K" "int n < sint K" by simp_all
  from n(1) have n63: "n < 2 ^ 63" "Suc n < 2 ^ 63" by simp_all
  have ih: "dl_run K (replicate (2 * n) Coordinator) dl_init = Some ?s"
    by (rule Suc.IH [OF n(1,2)])
  have i: "sint (1 + word_of_nat n :: go_int) = 1 + int n"
    using sint_of_nat_go_int [OF n63(2)] by (simp add: add.commute)
  with n(3) have guard: "(1 + word_of_nat n :: go_int) \<le>s K" by (simp add: word_sle_eq)
  from Suc.prems(1) have "sint (word_of_nat n :: wg_counter) = int n"
    by (simp add: sint_of_nat_counter)
  with Suc.prems(1) have "wg_add 1 (word_of_nat n) = WgOk (word_of_nat n + 1)"
    using wg_add_one [of "word_of_nat n"] by simp
  with guard have "dl_run K [Coordinator, Coordinator] ?s
      = Some \<lparr>dl_wg = word_of_nat n + 1, dl_pc = DAdd (1 + word_of_nat n + 1),
          dl_tasks = map (\<lambda>j. (1 + word_of_nat j, TSpawned)) [0..<n] @ [(1 + word_of_nat n, TSpawned)],
          dl_out = [], dl_panicked = False\<rparr>"
    by (simp add: dl_step_def coordinator_def)
  moreover have "replicate (2 * Suc n) Coordinator
      = replicate (2 * n) Coordinator @ [Coordinator, Coordinator]"
  proof -
    have "replicate (2 * Suc n) Coordinator = replicate (2 * n + 2) Coordinator" by simp
    also have "\<dots> = replicate (2 * n) Coordinator @ replicate 2 Coordinator"
      by (rule replicate_add)
    also have "replicate 2 Coordinator = [Coordinator, Coordinator]"
      by (simp add: numeral_2_eq_2)
    finally show ?thesis .
  qed
  ultimately show ?case
    using ih by (simp add: dl_run_append add.commute del: replicate.simps replicate_Suc)
qed

text \<open>
  With \<open>2 ^ 31\<close> tasks, when none of them has finished while the loop runs, the last
  \<open>Add(1)\<close> finds the counter at \<open>2 ^ 31 - 1\<close>, wraps it to \<open>- 2 ^ 31\<close> and panics:
  \<open>Wait()\<close> is never reached.
\<close>

theorem waitgroup_capacity_counterexample:
  "dl_run 2147483648 (replicate (2 ^ 32 - 1) Coordinator) dl_init
   = Some \<lparr>dl_wg = - 2147483648, dl_pc = DAdd 2147483648,
       dl_tasks = map (\<lambda>j. (1 + word_of_nat j, TSpawned)) [0..<2 ^ 31 - 1], dl_out = [],
       dl_panicked = True\<rparr>"
proof -
  let ?n = "2 ^ 31 - 1 :: nat"
  let ?s = "\<lparr>dl_wg = word_of_nat ?n, dl_pc = DAdd (1 + word_of_nat ?n),
       dl_tasks = map (\<lambda>j. (1 + word_of_nat j, TSpawned)) [0..<?n], dl_out = [],
       dl_panicked = False\<rparr>"
  have "dl_run 2147483648 (replicate (2 * ?n) Coordinator) dl_init = Some ?s"
    by (rule spawn_without_finishing) simp_all
  moreover have "dl_step 2147483648 Coordinator ?s
      = Some (?s\<lparr>dl_wg := - 2147483648, dl_panicked := True\<rparr>)"
    by (simp add: dl_step_def coordinator_def wg_add_def word_sle_eq word_sless_alt)
  moreover have "replicate (2 ^ 32 - 1) Coordinator = replicate (2 * ?n) Coordinator @ [Coordinator]"
  proof -
    have "(2 ^ 32 - 1 :: nat) = 2 * ?n + 1" by simp
    then have "replicate (2 ^ 32 - 1) Coordinator = replicate (2 * ?n + 1) Coordinator"
      by (rule arg_cong)
    also have "\<dots> = replicate (2 * ?n) Coordinator @ replicate 1 Coordinator"
      by (rule replicate_add)
    finally show ?thesis by simp
  qed
  ultimately show ?thesis
    by (simp add: dl_run_append del: replicate.simps replicate_Suc)
qed

section \<open>Fan-out and fan-in: what every reachable state satisfies\<close>

lemma sum_list_map_update:
  fixes f :: "'a \<Rightarrow> 'b::comm_monoid_add"
  shows "i < length xs \<Longrightarrow>
    sum_list (map f (xs[i := y])) + f (xs ! i) = sum_list (map f xs) + f y"
proof (induction xs arbitrary: i)
  case Nil
  then show ?case by simp
next
  case (Cons x xs)
  show ?case
  proof (cases i)
    case 0
    then show ?thesis by (simp add: ac_simps)
  next
    case (Suc j)
    with Cons.prems have "j < length xs" by simp
    from Cons.IH [OF this] Suc show ?thesis by (simp add: ac_simps)
  qed
qed

lemma chans_ok_spawn: "chans_ok cs ws \<Longrightarrow> chans_ok (cs @ [False]) (ws @ [WRecv])"
  by (simp add: chans_ok_def)

lemma chans_ok_nth: "chans_ok cs ws \<Longrightarrow> i < length ws \<Longrightarrow> cs ! i \<longleftrightarrow> ws ! i = WDone"
  by (simp add: chans_ok_def)

lemma chans_ok_length: "chans_ok cs ws \<Longrightarrow> length cs = length ws"
  by (simp add: chans_ok_def)

lemma chans_ok_move:
  "chans_ok cs ws \<Longrightarrow> i < length ws \<Longrightarrow> ws ! i \<noteq> WDone \<Longrightarrow> w \<noteq> WDone \<Longrightarrow>
   chans_ok cs (ws[i := w])"
proof -
  assume c: "chans_ok cs ws" and i: "i < length ws" and n: "ws ! i \<noteq> WDone" "w \<noteq> WDone"
  from i n have "(map (\<lambda>w. w = WDone) ws)[i := False] = map (\<lambda>w. w = WDone) ws"
    by (simp add: list_update_same_conv)
  with c n show ?thesis by (simp add: chans_ok_def map_update)
qed

lemma chans_ok_close: "chans_ok cs ws \<Longrightarrow> chans_ok (cs[i := True]) (ws[i := WDone])"
  by (simp add: chans_ok_def map_update)

lemma drained_ok_move:
  "drained_ok ws inp \<Longrightarrow> \<not> wk_closing w \<Longrightarrow> drained_ok (ws[i := w]) inp"
  using set_update_subset_insert [of ws i w] by (auto simp: drained_ok_def)

lemma drained_ok_spawn: "drained_ok ws inp \<Longrightarrow> drained_ok (ws @ [WRecv]) inp"
  by (auto simp: drained_ok_def)

lemma drained_ok_closed: "chan_closed inp \<Longrightarrow> chan_buf inp = [] \<Longrightarrow> drained_ok ws inp"
  by (simp add: drained_ok_def)

lemma drained_ok_busy:
  "drained_ok ws inp \<Longrightarrow> \<not> (chan_closed inp \<and> chan_buf inp = []) \<Longrightarrow> \<not> wk_closing w \<Longrightarrow>
   drained_ok (ws[i := w]) inp' \<and> drained_ok ws inp'"
  using set_update_subset_insert [of ws i w] by (auto simp: drained_ok_def)

lemma drained_okD:
  "drained_ok ws inp \<Longrightarrow> w \<in> set ws \<Longrightarrow> wk_closing w \<Longrightarrow>
   chan_closed inp \<and> chan_buf inp = []"
  unfolding drained_ok_def by blast

lemma mergers_ok_worker:
  "mergers_ok ms ws \<Longrightarrow> i < length ws \<Longrightarrow> ws ! i \<noteq> WDone \<or> w = WDone \<Longrightarrow>
   mergers_ok ms (ws[i := w])"
  by (auto simp: mergers_ok_def nth_list_update)

lemma mergers_ok_spawn_worker: "mergers_ok ms ws \<Longrightarrow> mergers_ok ms (ws @ [w])"
  by (auto simp: mergers_ok_def nth_append)

lemma mergers_ok_spawn: "mergers_ok ms ws \<Longrightarrow> length ms < length ws \<Longrightarrow> mergers_ok (ms @ [MRecv]) ws"
  by (auto simp: mergers_ok_def nth_append less_Suc_eq)

lemma mergers_ok_move:
  "mergers_ok ms ws \<Longrightarrow> \<not> mg_exited m \<or> ws ! i = WDone \<Longrightarrow> mergers_ok (ms[i := m]) ws"
  unfolding mergers_ok_def
  by (metis length_list_update nth_list_update_eq nth_list_update_neq)

lemma mergers_ok_both:
  "mergers_ok ms ws \<Longrightarrow> i < length ws \<Longrightarrow> ws ! i \<noteq> WDone \<Longrightarrow> \<not> mg_exited m \<Longrightarrow>
   mergers_ok (ms[i := m]) (ws[i := w])"
  unfolding mergers_ok_def
  by (metis length_list_update nth_list_update_eq nth_list_update_neq)


lemma wk_items_put:
  "i < length ws \<Longrightarrow> wk_item (ws ! i) = {#} \<Longrightarrow>
   sum_list (map wk_item (ws[i := w])) = sum_list (map wk_item ws) + wk_item w"
  using sum_list_map_update [of i ws wk_item w] by simp

lemma wk_items_take:
  "i < length ws \<Longrightarrow> wk_item w = {#} \<Longrightarrow>
   sum_list (map wk_item ws) = sum_list (map wk_item (ws[i := w])) + wk_item (ws ! i)"
  using sum_list_map_update [of i ws wk_item w] by simp

lemma mg_items_put:
  "i < length ms \<Longrightarrow> mg_item (ms ! i) = {#} \<Longrightarrow>
   sum_list (map mg_item (ms[i := m])) = sum_list (map mg_item ms) + mg_item m"
  using sum_list_map_update [of i ms mg_item m] by simp

lemma mg_items_take:
  "i < length ms \<Longrightarrow> mg_item m = {#} \<Longrightarrow>
   sum_list (map mg_item ms) = sum_list (map mg_item (ms[i := m])) + mg_item (ms ! i)"
  using sum_list_map_update [of i ms mg_item m] by simp

lemma out_ok_move:
  "out_ok f ms oc \<Longrightarrow> i < length ms \<Longrightarrow> ms ! i \<noteq> MDone \<Longrightarrow> out_ok f (ms[i := m]) oc"
proof -
  assume o: "out_ok f ms oc" and i: "i < length ms" and n: "ms ! i \<noteq> MDone"
  from i have "ms ! i \<in> set ms" by simp
  with o n have "\<not> (f = FinClose \<or> f = FinDone)" by (auto simp: out_ok_def)
  with o show ?thesis by (simp add: out_ok_def)
qed

lemma out_ok_idle: "f \<noteq> FinClose \<Longrightarrow> f \<noteq> FinDone \<Longrightarrow> out_ok f ms oc \<longleftrightarrow> \<not> oc"
  by (simp add: out_ok_def)

lemma fan_pending_add_nonneg: "0 \<le> fan_pending_add pc"
  by (cases pc) simp_all

lemma counter_ok_move:
  "counter_ok c ms pc \<Longrightarrow> i < length ms \<Longrightarrow> mg_active (ms ! i) \<Longrightarrow> mg_active m \<Longrightarrow>
   counter_ok c (ms[i := m]) pc"
  by (simp add: counter_ok_def filter_length_update)

lemma mg_active_positive:
  "i < length ms \<Longrightarrow> mg_active (ms ! i) \<Longrightarrow> 1 \<le> int (length (filter mg_active ms))"
proof -
  assume "i < length ms" and a: "mg_active (ms ! i)"
  then have "ms ! i \<in> set (filter mg_active ms)" by simp
  then have "filter mg_active ms \<noteq> []" by (metis empty_iff empty_set)
  then show ?thesis by (cases "filter mg_active ms") simp_all
qed

lemma fan_invD:
  assumes "fan_inv n items s"
  shows "chans_ok (fan_chans s) (fan_workers s)"
    and "drained_ok (fan_workers s) (fan_input s)"
    and "mergers_ok (fan_mergers s) (fan_workers s)"
    and "pc_ok n (fan_pc s) (length (fan_workers s)) (length (fan_mergers s)) (fan_fin s)"
    and "out_ok (fan_fin s) (fan_mergers s) (fan_out_closed s)"
    and "sender_ok (fan_pending s) (fan_input s)"
    and "fan_items s = image_mset (\<lambda>v. v * v) (mset items)"
    and "\<not> fan_panicked s \<Longrightarrow> counter_ok (fan_wg s) (fan_mergers s) (fan_pc s)"
  using assms by (simp_all add: fan_inv_def)

lemma fan_invI:
  assumes "chans_ok (fan_chans s) (fan_workers s)"
    and "drained_ok (fan_workers s) (fan_input s)"
    and "mergers_ok (fan_mergers s) (fan_workers s)"
    and "pc_ok n (fan_pc s) (length (fan_workers s)) (length (fan_mergers s)) (fan_fin s)"
    and "out_ok (fan_fin s) (fan_mergers s) (fan_out_closed s)"
    and "sender_ok (fan_pending s) (fan_input s)"
    and "fan_items s = image_mset (\<lambda>v. v * v) (mset items)"
    and "\<not> fan_panicked s" and "counter_ok (fan_wg s) (fan_mergers s) (fan_pc s)"
  shows "fan_inv n items s \<and> \<not> fan_panicked s"
  using assms by (simp add: fan_inv_def)

lemma fan_inv_init: "fan_inv n items (fan_init items k)"
  by (simp add: fan_inv_def fan_init_def make_chan_def chans_ok_def drained_ok_def
      mergers_ok_def counter_ok_def out_ok_def sender_ok_def fan_items_def)

lemma feed_inv:
  assumes inv: "fan_inv n items s" and np: "\<not> fan_panicked s" and st: "feed s = Some s'"
  shows "fan_inv n items s' \<and> \<not> fan_panicked s'"
proof -
  note d = fan_invD [OF inv]
  show ?thesis
  proof (cases "fan_pending s")
    case Nil
    with st have o: "\<not> chan_closed (fan_input s)"
      and s': "s' = s\<lparr>fan_input := (fan_input s)\<lparr>chan_closed := True\<rparr>\<rparr>"
      by (auto simp: feed_def chan_close_def split: if_splits)
    from d(2) o have "drained_ok (fan_workers s) ((fan_input s)\<lparr>chan_closed := True\<rparr>)"
      by (auto simp: drained_ok_def)
    with d np Nil show ?thesis
      unfolding s' by (intro fan_invI) (simp_all add: sender_ok_def fan_items_def)
  next
    case (Cons x xs)
    from d(6) Cons have o: "\<not> chan_closed (fan_input s)" by (simp add: sender_ok_def)
    with st Cons
    have s': "s' = s\<lparr>fan_pending := xs,
        fan_input := (fan_input s)\<lparr>chan_buf := chan_buf (fan_input s) @ [x]\<rparr>\<rparr>"
      by (auto simp: feed_def chan_send_def split: if_splits)
    from d(2) o
    have "drained_ok (fan_workers s) ((fan_input s)\<lparr>chan_buf := chan_buf (fan_input s) @ [x]\<rparr>)"
      by (auto simp: drained_ok_def)
    with d np Cons o show ?thesis
      unfolding s' by (intro fan_invI) (simp_all add: sender_ok_def fan_items_def)
  qed
qed

lemma feed_to_inv:
  assumes inv: "fan_inv n items s" and np: "\<not> fan_panicked s" and st: "feed_to i s = Some s'"
  shows "fan_inv n items s' \<and> \<not> fan_panicked s'"
proof -
  note d = fan_invD [OF inv]
  from st obtain x xs where p: "fan_pending s = x # xs"
    and i: "i < length (fan_workers s)" "fan_workers s ! i = WRecv"
    and o: "\<not> chan_closed (fan_input s)"
    and s': "s' = s\<lparr>fan_pending := xs, fan_workers := (fan_workers s)[i := WSend x]\<rparr>"
    by (auto simp: feed_to_def split: list.splits if_splits)
  from d(1) i have c: "chans_ok (fan_chans s) ((fan_workers s)[i := WSend x])"
    by (simp add: chans_ok_move)
  from d(2) have dr: "drained_ok ((fan_workers s)[i := WSend x]) (fan_input s)"
    by (simp add: drained_ok_move)
  from d(3) i have m: "mergers_ok (fan_mergers s) ((fan_workers s)[i := WSend x])"
    by (simp add: mergers_ok_worker)
  from i have w: "sum_list (map wk_item ((fan_workers s)[i := WSend x]))
      = sum_list (map wk_item (fan_workers s)) + {#x * x#}"
    by (simp add: wk_items_put)
  from d(7) p w have it: "fan_items s' = image_mset (\<lambda>v. v * v) (mset items)"
    unfolding s' by (simp add: fan_items_def)
  from d np c dr m p o it show ?thesis
    unfolding s' by (intro fan_invI) (simp_all add: sender_ok_def)
qed

lemma fanOut_worker_inv:
  assumes inv: "fan_inv n items s" and np: "\<not> fan_panicked s"
    and st: "fanOut_worker i s = Some s'"
  shows "fan_inv n items s' \<and> \<not> fan_panicked s'"
proof -
  note d = fan_invD [OF inv]
  from st have i: "i < length (fan_workers s)"
    by (simp add: fanOut_worker_def split: if_splits)
  from st i consider
      (recv) v c where "fan_workers s ! i = WRecv" "chan_recv (fan_input s) = RecvVal v c"
        "s' = s\<lparr>fan_input := c, fan_workers := (fan_workers s)[i := WSend v]\<rparr>"
    | (ended) "fan_workers s ! i = WRecv" "chan_recv (fan_input s) = RecvClosed"
        "s' = s\<lparr>fan_workers := (fan_workers s)[i := WClosing]\<rparr>"
    | (close) "fan_workers s ! i = WClosing"
        "s' = s\<lparr>fan_chans := (fan_chans s)[i := True], fan_workers := (fan_workers s)[i := WDone]\<rparr>"
    | (panic) "fan_workers s ! i = WClosing" "fan_chans s ! i"
    by (auto simp: fanOut_worker_def split: if_splits fan_worker.splits recv_result.splits)
  then show ?thesis
  proof cases
    case recv
    from recv(2) obtain xs where b: "chan_buf (fan_input s) = v # xs"
      and c: "c = (fan_input s)\<lparr>chan_buf := xs\<rparr>"
      by (auto simp: chan_recv_def split: list.splits if_splits)
    from d(1) i recv(1) have co: "chans_ok (fan_chans s) ((fan_workers s)[i := WSend v])"
      by (simp add: chans_ok_move)
    from d(2) b have dr: "drained_ok ((fan_workers s)[i := WSend v]) c"
      using drained_ok_busy [of "fan_workers s" "fan_input s" "WSend v" i c] by simp
    from d(3) i recv(1) have m: "mergers_ok (fan_mergers s) ((fan_workers s)[i := WSend v])"
      by (simp add: mergers_ok_worker)
    from i recv(1) have w: "sum_list (map wk_item ((fan_workers s)[i := WSend v]))
        = sum_list (map wk_item (fan_workers s)) + {#v * v#}"
      by (simp add: wk_items_put)
    from d(7) b c w have it: "fan_items s' = image_mset (\<lambda>v. v * v) (mset items)"
      unfolding recv(3) by (simp add: fan_items_def)
    from d(6) c have so: "sender_ok (fan_pending s) c" by (simp add: sender_ok_def)
    from d np co dr m so it show ?thesis
      unfolding recv(3) by (intro fan_invI) simp_all
  next
    case ended
    from ended(2) have cl: "chan_closed (fan_input s)" "chan_buf (fan_input s) = []"
      by (auto simp: chan_recv_def split: list.splits if_splits)
    from d(1) i ended(1) have co: "chans_ok (fan_chans s) ((fan_workers s)[i := WClosing])"
      by (simp add: chans_ok_move)
    from cl have dr: "drained_ok ((fan_workers s)[i := WClosing]) (fan_input s)"
      by (rule drained_ok_closed)
    from d(3) i ended(1) have m: "mergers_ok (fan_mergers s) ((fan_workers s)[i := WClosing])"
      by (simp add: mergers_ok_worker)
    from i ended(1) have w: "sum_list (map wk_item ((fan_workers s)[i := WClosing]))
        = sum_list (map wk_item (fan_workers s))"
      by (simp add: wk_items_put)
    from d(7) w have it: "fan_items s' = image_mset (\<lambda>v. v * v) (mset items)"
      unfolding ended(3) by (simp add: fan_items_def)
    from d np co dr m it show ?thesis
      unfolding ended(3) by (intro fan_invI) simp_all
  next
    case close
    from d(1) have co: "chans_ok ((fan_chans s)[i := True]) ((fan_workers s)[i := WDone])"
      by (rule chans_ok_close)
    from i close(1) have "WClosing \<in> set (fan_workers s)" by (metis nth_mem)
    with d(2) have cl: "chan_closed (fan_input s)" "chan_buf (fan_input s) = []"
      using drained_okD [of "fan_workers s" "fan_input s" WClosing] by simp_all
    then have dr: "drained_ok ((fan_workers s)[i := WDone]) (fan_input s)"
      by (rule drained_ok_closed)
    from d(3) i have m: "mergers_ok (fan_mergers s) ((fan_workers s)[i := WDone])"
      by (simp add: mergers_ok_worker)
    from i close(1) have w: "sum_list (map wk_item ((fan_workers s)[i := WDone]))
        = sum_list (map wk_item (fan_workers s))"
      by (simp add: wk_items_put)
    from d(7) w have it: "fan_items s' = image_mset (\<lambda>v. v * v) (mset items)"
      unfolding close(2) by (simp add: fan_items_def)
    from d np co dr m it show ?thesis
      unfolding close(2) by (intro fan_invI) simp_all
  next
    case panic
    with d(1) i show ?thesis by (simp add: chans_ok_nth)
  qed
qed

lemma hand_inv:
  assumes inv: "fan_inv n items s" and np: "\<not> fan_panicked s" and st: "hand i s = Some s'"
  shows "fan_inv n items s' \<and> \<not> fan_panicked s'"
proof -
  note d = fan_invD [OF inv]
  from st obtain v where i: "i < length (fan_workers s)" and w: "fan_workers s ! i = WSend v"
    by (auto simp: hand_def split: if_splits fan_worker.splits)
  from d(1) i w have nc: "\<not> fan_chans s ! i" by (simp add: chans_ok_nth)
  with st i w have j: "i < length (fan_mergers s)" and m: "fan_mergers s ! i = MRecv"
    and s': "s' = s\<lparr>fan_workers := (fan_workers s)[i := WRecv],
        fan_mergers := (fan_mergers s)[i := MSend (v * v)]\<rparr>"
    by (auto simp: hand_def split: if_splits)
  from d(1) i w have co: "chans_ok (fan_chans s) ((fan_workers s)[i := WRecv])"
    by (simp add: chans_ok_move)
  from d(2) have dr: "drained_ok ((fan_workers s)[i := WRecv]) (fan_input s)"
    by (simp add: drained_ok_move)
  from d(3) i w
  have mo: "mergers_ok ((fan_mergers s)[i := MSend (v * v)]) ((fan_workers s)[i := WRecv])"
    by (simp add: mergers_ok_both)
  from d(5) j m have oo: "out_ok (fan_fin s) ((fan_mergers s)[i := MSend (v * v)]) (fan_out_closed s)"
    by (simp add: out_ok_move)
  from d(8) np j m
  have cn: "counter_ok (fan_wg s) ((fan_mergers s)[i := MSend (v * v)]) (fan_pc s)"
    by (simp add: counter_ok_move)
  from i w have ws: "sum_list (map wk_item (fan_workers s))
      = sum_list (map wk_item ((fan_workers s)[i := WRecv])) + {#v * v#}"
    using wk_items_take [of i "fan_workers s" WRecv] by simp
  from j m have ms: "sum_list (map mg_item ((fan_mergers s)[i := MSend (v * v)]))
      = sum_list (map mg_item (fan_mergers s)) + {#v * v#}"
    by (simp add: mg_items_put)
  from d(7) ws ms have it: "fan_items s' = image_mset (\<lambda>v. v * v) (mset items)"
    unfolding s' by (simp add: fan_items_def)
  from d np co dr mo oo cn it show ?thesis
    unfolding s' by (intro fan_invI) simp_all
qed


lemma fanIn_merger_inv:
  assumes inv: "fan_inv n items s" and np: "\<not> fan_panicked s"
    and st: "fanIn_merger i s = Some s'"
  shows "fan_inv n items s' \<and> \<not> fan_panicked s'"
proof -
  note d = fan_invD [OF inv]
  from st have j: "i < length (fan_mergers s)" and jc: "i < length (fan_chans s)"
    by (simp_all add: fanIn_merger_def split: if_splits)
  from jc d(1) have i: "i < length (fan_workers s)" by (simp add: chans_ok_length)
  from st j jc consider
      (ended) "fan_mergers s ! i = MRecv" "fan_chans s ! i"
        "s' = s\<lparr>fan_mergers := (fan_mergers s)[i := MExit]\<rparr>"
    | (decr) "fan_mergers s ! i = MExit"
    by (auto simp: fanIn_merger_def split: if_splits fan_merger.splits)
  then show ?thesis
  proof cases
    case ended
    from d(1) i ended(2) have wd: "fan_workers s ! i = WDone" by (simp add: chans_ok_nth)
    from d(3) wd have mo: "mergers_ok ((fan_mergers s)[i := MExit]) (fan_workers s)"
      by (simp add: mergers_ok_move)
    from d(5) j ended(1) have oo: "out_ok (fan_fin s) ((fan_mergers s)[i := MExit]) (fan_out_closed s)"
      by (simp add: out_ok_move)
    from d(8) np j ended(1)
    have cn: "counter_ok (fan_wg s) ((fan_mergers s)[i := MExit]) (fan_pc s)"
      by (simp add: counter_ok_move)
    from j ended(1) have ms: "sum_list (map mg_item ((fan_mergers s)[i := MExit]))
        = sum_list (map mg_item (fan_mergers s))"
      by (simp add: mg_items_put)
    from d(7) ms have it: "fan_items s' = image_mset (\<lambda>v. v * v) (mset items)"
      unfolding ended(3) by (simp add: fan_items_def)
    from d np mo oo cn it show ?thesis
      unfolding ended(3) by (intro fan_invI) simp_all
  next
    case decr
    from d(8) np have c: "sint (fan_wg s)
        = int (length (filter mg_active (fan_mergers s))) + fan_pending_add (fan_pc s)"
      by (simp add: counter_ok_def)
    from j decr have "1 \<le> int (length (filter mg_active (fan_mergers s)))"
      using mg_active_positive [of i "fan_mergers s"] by simp
    with c fan_pending_add_nonneg [of "fan_pc s"] have ge: "1 \<le> sint (fan_wg s)" by simp
    note a = wg_done_positive [OF ge]
    with st j jc decr
    have s': "s' = s\<lparr>fan_wg := fan_wg s - 1, fan_mergers := (fan_mergers s)[i := MDone]\<rparr>"
      by (simp add: fanIn_merger_def)
    from d(3) j have "fan_workers s ! i = WDone" using decr by (simp add: mergers_ok_def)
    with d(3) have mo: "mergers_ok ((fan_mergers s)[i := MDone]) (fan_workers s)"
      by (simp add: mergers_ok_move)
    from d(5) j decr have oo: "out_ok (fan_fin s) ((fan_mergers s)[i := MDone]) (fan_out_closed s)"
      by (simp add: out_ok_move)
    from c a j decr
    have cn: "counter_ok (fan_wg s - 1) ((fan_mergers s)[i := MDone]) (fan_pc s)"
      by (simp add: counter_ok_def filter_length_update)
    from j decr have ms: "sum_list (map mg_item ((fan_mergers s)[i := MDone]))
        = sum_list (map mg_item (fan_mergers s))"
      by (simp add: mg_items_put)
    from d(7) ms have it: "fan_items s' = image_mset (\<lambda>v. v * v) (mset items)"
      unfolding s' by (simp add: fan_items_def)
    from d np mo oo cn it show ?thesis
      unfolding s' by (intro fan_invI) simp_all
  qed
qed

lemma deliver_inv:
  assumes inv: "fan_inv n items s" and np: "\<not> fan_panicked s" and st: "deliver i s = Some s'"
  shows "fan_inv n items s' \<and> \<not> fan_panicked s'"
proof -
  note d = fan_invD [OF inv]
  from st obtain v where j: "i < length (fan_mergers s)" and m: "fan_mergers s ! i = MSend v"
    by (auto simp: deliver_def split: if_splits fan_merger.splits)
  from j have "fan_mergers s ! i \<in> set (fan_mergers s)" by simp
  with d(5) m have no: "\<not> fan_out_closed s" by (auto simp: out_ok_def)
  with st j m
  have s': "s' = s\<lparr>fan_received := fan_received s @ [v],
      fan_mergers := (fan_mergers s)[i := MRecv]\<rparr>"
    by (auto simp: deliver_def split: if_splits)
  from d(3) have mo: "mergers_ok ((fan_mergers s)[i := MRecv]) (fan_workers s)"
    by (simp add: mergers_ok_move)
  from d(5) j m have oo: "out_ok (fan_fin s) ((fan_mergers s)[i := MRecv]) (fan_out_closed s)"
    by (simp add: out_ok_move)
  from d(8) np j m have cn: "counter_ok (fan_wg s) ((fan_mergers s)[i := MRecv]) (fan_pc s)"
    by (simp add: counter_ok_move)
  from j m have ms: "sum_list (map mg_item (fan_mergers s))
      = sum_list (map mg_item ((fan_mergers s)[i := MRecv])) + {#v#}"
    using mg_items_take [of i "fan_mergers s" MRecv] by simp
  from d(7) ms have it: "fan_items s' = image_mset (\<lambda>v. v * v) (mset items)"
    unfolding s' by (simp add: fan_items_def)
  from d np mo oo cn it show ?thesis
    unfolding s' by (intro fan_invI) simp_all
qed

lemma all_mergers_done:
  assumes "counter_ok c ms pc" and "c = 0"
  shows "\<forall>m \<in> set ms. m = MDone"
proof -
  from assms have "int (length (filter mg_active ms)) + fan_pending_add pc = 0"
    by (simp add: counter_ok_def)
  with fan_pending_add_nonneg [of pc] have "int (length (filter mg_active ms)) = 0" by linarith
  then have "filter mg_active ms = []" by simp
  then have "\<forall>m \<in> set ms. \<not> mg_active m" by (simp add: filter_empty_conv)
  moreover have "\<And>m. \<not> mg_active m \<Longrightarrow> m = MDone"
  proof -
    fix m show "\<not> mg_active m \<Longrightarrow> m = MDone" by (cases m) simp_all
  qed
  ultimately show ?thesis by blast
qed

lemma pc_ok_fin:
  "pc_ok n pc nw nm f \<Longrightarrow> f \<noteq> FinNone \<Longrightarrow> f' \<noteq> FinNone \<Longrightarrow> f \<noteq> FinDone \<Longrightarrow>
   pc_ok n pc nw nm f' \<and> pc = FRange"
  by (cases pc) simp_all

lemma finalizer_inv:
  assumes inv: "fan_inv n items s" and np: "\<not> fan_panicked s" and st: "finalizer s = Some s'"
  shows "fan_inv n items s' \<and> \<not> fan_panicked s'"
proof -
  note d = fan_invD [OF inv]
  from st consider
      (wait) "fan_fin s = FinWait" "fan_wg s = 0" "s' = s\<lparr>fan_fin := FinClose\<rparr>"
    | (close) "fan_fin s = FinClose"
    by (auto simp: finalizer_def wg_wait_def split: if_splits fan_finalizer.splits)
  then show ?thesis
  proof cases
    case wait
    from d(8) np wait(2) have "\<forall>m \<in> set (fan_mergers s). m = MDone"
      using all_mergers_done [of "fan_wg s" "fan_mergers s" "fan_pc s"] by simp
    with d(5) wait(1) have oo: "out_ok FinClose (fan_mergers s) (fan_out_closed s)"
      by (simp add: out_ok_def)
    from d(4) wait(1)
    have pk: "pc_ok n (fan_pc s) (length (fan_workers s)) (length (fan_mergers s)) FinClose"
      using pc_ok_fin [of n "fan_pc s" _ _ FinWait FinClose] by simp
    from d np oo pk show ?thesis
      unfolding wait(3) by (intro fan_invI) (simp_all add: fan_items_def)
  next
    case close
    with d(5) have no: "\<not> fan_out_closed s" and al: "\<forall>m \<in> set (fan_mergers s). m = MDone"
      by (simp_all add: out_ok_def)
    with st close have s': "s' = s\<lparr>fan_out_closed := True, fan_fin := FinDone\<rparr>"
      by (simp add: finalizer_def)
    from al have oo: "out_ok FinDone (fan_mergers s) True" by (simp add: out_ok_def)
    from d(4) close
    have pk: "pc_ok n (fan_pc s) (length (fan_workers s)) (length (fan_mergers s)) FinDone"
      using pc_ok_fin [of n "fan_pc s" _ _ FinClose FinDone] by simp
    from d np oo pk show ?thesis
      unfolding s' by (intro fan_invI) (simp_all add: fan_items_def)
  qed
qed


lemma caller_inv:
  assumes inv: "fan_inv n items s" and np: "\<not> fan_panicked s" and st: "caller n s = Some s'"
  shows "fan_inv n items s'
    \<and> (fan_panicked s' \<longrightarrow>
         (fan_pc s = FMake \<and> n <s 0)
         \<or> (\<exists>k. fan_pc s = FAdd k \<and> k < length (fan_workers s) \<and> sint (fan_wg s) = 2147483647))"
proof -
  note d = fan_invD [OF inv]
  from d(8) np have c: "sint (fan_wg s)
      = int (length (filter mg_active (fan_mergers s))) + fan_pending_add (fan_pc s)"
    by (simp add: counter_ok_def)
  show ?thesis
  proof (cases "fan_pc s")
    case FMake
    show ?thesis
    proof (cases "n <s 0")
      case True
      with st FMake have s': "s' = s\<lparr>fan_panicked := True\<rparr>" by (simp add: caller_def)
      from d FMake True show ?thesis
        unfolding s' by (simp add: fan_inv_def fan_items_def)
    next
      case False
      with st FMake have s': "s' = s\<lparr>fan_pc := FOut 0\<rparr>" by (simp add: caller_def)
      from False have "0 \<le> sint n" by (simp add: word_sless_alt)
      with d np c FMake have "fan_inv n items s' \<and> \<not> fan_panicked s'"
        unfolding s' by (intro fan_invI) (simp_all add: fan_items_def counter_ok_def)
      then show ?thesis by simp
    qed
  next
    case (FOut i)
    from d(4) FOut have i: "0 \<le> sint i" "sint i \<le> sint n" "int (length (fan_workers s)) = sint i"
      and m0: "length (fan_mergers s) = 0" and f: "fan_fin s = FinNone"
      by simp_all
    show ?thesis
    proof (cases "i <s n")
      case True
      with st FOut
      have s': "s' = s\<lparr>fan_workers := fan_workers s @ [WRecv],
          fan_chans := fan_chans s @ [False], fan_pc := FOut (i + 1)\<rparr>"
        by (simp add: caller_def)
      from True have lt: "sint i < sint n" by (simp add: word_sless_alt)
      with sint_lt [of n] have "sint (i + 1) = sint i + 1" by (simp add: sint_succ)
      with i lt m0 f
      have pk: "pc_ok n (FOut (i + 1)) (length (fan_workers s @ [WRecv]))
          (length (fan_mergers s)) (fan_fin s)"
        by simp
      from d(7) have it: "fan_items s' = image_mset (\<lambda>v. v * v) (mset items)"
        unfolding s' by (simp add: fan_items_def)
      from d np c FOut pk it have "fan_inv n items s' \<and> \<not> fan_panicked s'"
        unfolding s'
        by (intro fan_invI)
          (simp_all add: chans_ok_spawn drained_ok_spawn mergers_ok_spawn_worker counter_ok_def)
      then show ?thesis by simp
    next
      case False
      with st FOut have s': "s' = s\<lparr>fan_pc := FAdd 0\<rparr>" by (simp add: caller_def)
      from False i have "int (length (fan_workers s)) = sint n" by (simp add: word_sless_alt)
      with d np c FOut m0 f have "fan_inv n items s' \<and> \<not> fan_panicked s'"
        unfolding s' by (intro fan_invI) (simp_all add: fan_items_def counter_ok_def)
      then show ?thesis by simp
    qed
  next
    case (FAdd k)
    from d(4) FAdd have w: "int (length (fan_workers s)) = sint n"
      and m: "length (fan_mergers s) = k" "k \<le> length (fan_workers s)" and f: "fan_fin s = FinNone"
      by simp_all
    from d(1) have lc: "length (fan_chans s) = length (fan_workers s)" by (rule chans_ok_length)
    from c FAdd have c0: "sint (fan_wg s) = int (length (filter mg_active (fan_mergers s)))"
      by simp
    show ?thesis
    proof (cases "k < length (fan_workers s)")
      case True
      show ?thesis
      proof (cases "sint (fan_wg s) < 2147483647")
        case small: True
        from c0 have "0 \<le> sint (fan_wg s)" by simp
        note a = wg_add_one [OF this small]
        with st FAdd True lc have s': "s' = s\<lparr>fan_wg := fan_wg s + 1, fan_pc := FGo k\<rparr>"
          by (simp add: caller_def)
        from d np FAdd w m f True a c0 have "fan_inv n items s' \<and> \<not> fan_panicked s'"
          unfolding s' by (intro fan_invI) (simp_all add: fan_items_def counter_ok_def)
        then show ?thesis by simp
      next
        case False
        with sint_lt [of "fan_wg s"] have mx: "sint (fan_wg s) = 2147483647" by simp
        from wg_add_one_overflow [OF mx] st FAdd True lc
        have s': "s' = s\<lparr>fan_wg := fan_wg s + 1, fan_panicked := True\<rparr>"
          by (simp add: caller_def)
        from d FAdd True mx show ?thesis
          unfolding s' by (simp add: fan_inv_def fan_items_def)
      qed
    next
      case False
      with st FAdd lc have s': "s' = s\<lparr>fan_pc := FFin\<rparr>" by (simp add: caller_def)
      from d np FAdd w m f False c0 have "fan_inv n items s' \<and> \<not> fan_panicked s'"
        unfolding s' by (intro fan_invI) (simp_all add: fan_items_def counter_ok_def)
      then show ?thesis by simp
    qed
  next
    case (FGo k)
    from d(4) FGo have w: "int (length (fan_workers s)) = sint n"
      and m: "length (fan_mergers s) = k" "k < length (fan_workers s)" and f: "fan_fin s = FinNone"
      by simp_all
    from st FGo have s': "s' = s\<lparr>fan_mergers := fan_mergers s @ [MRecv], fan_pc := FAdd (k + 1)\<rparr>"
      by (simp add: caller_def)
    from d(3) m have mo: "mergers_ok (fan_mergers s @ [MRecv]) (fan_workers s)"
      by (simp add: mergers_ok_spawn)
    from d(5) f have oo: "out_ok (fan_fin s) (fan_mergers s @ [MRecv]) (fan_out_closed s)"
      by (simp add: out_ok_def)
    from d(7) have it: "fan_items s' = image_mset (\<lambda>v. v * v) (mset items)"
      unfolding s' by (simp add: fan_items_def)
    from d np c FGo w m f mo oo it have "fan_inv n items s' \<and> \<not> fan_panicked s'"
      unfolding s' by (intro fan_invI) (simp_all add: counter_ok_def)
    then show ?thesis by simp
  next
    case FFin
    with st have s': "s' = s\<lparr>fan_fin := FinWait, fan_pc := FRange\<rparr>" by (simp add: caller_def)
    from d(4) FFin have f: "fan_fin s = FinNone" by simp
    with d(5) have oo: "out_ok FinWait (fan_mergers s) (fan_out_closed s)"
      by (simp add: out_ok_def)
    from d np c FFin oo have "fan_inv n items s' \<and> \<not> fan_panicked s'"
      unfolding s' by (intro fan_invI) (simp_all add: fan_items_def counter_ok_def)
    then show ?thesis by simp
  next
    case FRange
    with st have oc: "fan_out_closed s" and s': "s' = s\<lparr>fan_pc := FEnd\<rparr>"
      by (auto simp: caller_def split: if_splits)
    from d(5) oc have f: "fan_fin s = FinDone" by (simp add: out_ok_def)
    from d np c FRange f have "fan_inv n items s' \<and> \<not> fan_panicked s'"
      unfolding s' by (intro fan_invI) (simp_all add: fan_items_def counter_ok_def)
    then show ?thesis by simp
  next
    case FEnd
    with st show ?thesis by (simp add: caller_def)
  qed
qed

lemma fan_inv_step:
  assumes inv: "fan_inv n items s" and st: "fan_step n e s = Some s'"
  shows "fan_inv n items s'"
    and "fan_panicked s' \<Longrightarrow> e = Caller \<and>
         ((fan_pc s = FMake \<and> n <s 0)
          \<or> (\<exists>k. fan_pc s = FAdd k \<and> k < length (fan_workers s) \<and> sint (fan_wg s) = 2147483647))"
proof -
  from st have np: "\<not> fan_panicked s" by (simp add: fan_step_def split: if_splits)
  have "fan_inv n items s' \<and> (fan_panicked s' \<longrightarrow> e = Caller \<and>
         ((fan_pc s = FMake \<and> n <s 0)
          \<or> (\<exists>k. fan_pc s = FAdd k \<and> k < length (fan_workers s) \<and> sint (fan_wg s) = 2147483647)))"
  proof (cases e)
    case Feed
    with st np have "feed s = Some s'" by (simp add: fan_step_def)
    from feed_inv [OF inv np this] show ?thesis by simp
  next
    case (FeedTo i)
    with st np have "feed_to i s = Some s'" by (simp add: fan_step_def)
    from feed_to_inv [OF inv np this] show ?thesis by simp
  next
    case Caller
    with st np have "caller n s = Some s'" by (simp add: fan_step_def)
    from caller_inv [OF inv np this] Caller show ?thesis by simp
  next
    case (Work i)
    with st np have "fanOut_worker i s = Some s'" by (simp add: fan_step_def)
    from fanOut_worker_inv [OF inv np this] show ?thesis by simp
  next
    case (Hand i)
    with st np have "hand i s = Some s'" by (simp add: fan_step_def)
    from hand_inv [OF inv np this] show ?thesis by simp
  next
    case (Merge i)
    with st np have "fanIn_merger i s = Some s'" by (simp add: fan_step_def)
    from fanIn_merger_inv [OF inv np this] show ?thesis by simp
  next
    case (Deliver i)
    with st np have "deliver i s = Some s'" by (simp add: fan_step_def)
    from deliver_inv [OF inv np this] show ?thesis by simp
  next
    case Finalizer
    with st np have "finalizer s = Some s'" by (simp add: fan_step_def)
    from finalizer_inv [OF inv np this] show ?thesis by simp
  qed
  then show "fan_inv n items s'"
    and "fan_panicked s' \<Longrightarrow> e = Caller \<and>
         ((fan_pc s = FMake \<and> n <s 0)
          \<or> (\<exists>k. fan_pc s = FAdd k \<and> k < length (fan_workers s) \<and> sint (fan_wg s) = 2147483647))"
    by simp_all
qed

lemma fan_inv_run:
  "fan_inv n items s \<Longrightarrow> fan_run n sch s = Some s' \<Longrightarrow> fan_inv n items s'"
proof (induction sch arbitrary: s)
  case Nil
  then show ?case by simp
next
  case (Cons e es)
  from Cons.prems(2) obtain s1 where st: "fan_step n e s = Some s1"
    and r: "fan_run n es s1 = Some s'"
    by (auto split: option.splits)
  from fan_inv_step(1) [OF Cons.prems(1) st] have "fan_inv n items s1" .
  from Cons.IH [OF this r] show ?case .
qed

text \<open>With between 0 and \<open>2 ^ 31 - 1\<close> workers nothing panics.\<close>

lemma fan_step_no_panic:
  assumes b: "0 \<le> sint n" "sint n < 2 ^ 31" and inv: "fan_inv n items s"
    and st: "fan_step n e s = Some s'"
  shows "\<not> fan_panicked s'"
proof
  assume p: "fan_panicked s'"
  from st have np: "\<not> fan_panicked s" by (simp add: fan_step_def split: if_splits)
  note d = fan_invD [OF inv]
  from fan_inv_step(2) [OF inv st p] b(1)
  obtain k where pc: "fan_pc s = FAdd k" and k: "k < length (fan_workers s)"
    and mx: "sint (fan_wg s) = 2147483647"
    by (auto simp: word_sless_alt)
  from d(8) np pc have "sint (fan_wg s) = int (length (filter mg_active (fan_mergers s)))"
    by (simp add: counter_ok_def)
  moreover have "length (filter mg_active (fan_mergers s)) \<le> length (fan_mergers s)" by simp
  moreover from d(4) pc have "length (fan_mergers s) = k"
    and "int (length (fan_workers s)) = sint n"
    by simp_all
  ultimately show False using mx k b(2) by simp
qed

lemma fan_run_no_panic:
  "0 \<le> sint n \<Longrightarrow> sint n < 2 ^ 31 \<Longrightarrow> fan_inv n items s \<Longrightarrow> \<not> fan_panicked s \<Longrightarrow>
   fan_run n sch s = Some s' \<Longrightarrow> \<not> fan_panicked s'"
proof (induction sch arbitrary: s)
  case Nil
  then show ?case by simp
next
  case (Cons e es)
  from Cons.prems(5) obtain s1 where st: "fan_step n e s = Some s1"
    and r: "fan_run n es s1 = Some s'"
    by (auto split: option.splits)
  from fan_inv_step(1) [OF Cons.prems(3) st] have i1: "fan_inv n items s1" .
  from fan_step_no_panic [OF Cons.prems(1,2,3) st] have "\<not> fan_panicked s1" .
  from Cons.IH [OF Cons.prems(1,2) i1 this r] show ?case .
qed


section \<open>Fan-out and fan-in: every execution can be completed\<close>

lemma wk_rank_update:
  "i < length ws \<Longrightarrow>
   sum_list (map wk_rank (ws[i := w])) + wk_rank (ws ! i) = sum_list (map wk_rank ws) + wk_rank w"
  by (rule sum_list_map_update)

lemma mg_rank_update:
  "i < length ms \<Longrightarrow>
   sum_list (map mg_rank (ms[i := m])) + mg_rank (ms ! i) = sum_list (map mg_rank ms) + mg_rank m"
  by (rule sum_list_map_update)

lemma progress_caller:
  assumes b: "0 \<le> sint n" "sint n < 2 ^ 31" and inv: "fan_inv n items s"
    and np: "\<not> fan_panicked s" and pc: "fan_pc s \<noteq> FRange" "fan_pc s \<noteq> FEnd"
  shows "\<exists>s'. fan_step n Caller s = Some s' \<and> fan_todo n s' < fan_todo n s"
proof -
  note d = fan_invD [OF inv]
  show ?thesis
  proof (cases "fan_pc s")
    case FMake
    with b np have "fan_step n Caller s = Some (s\<lparr>fan_pc := FOut 0\<rparr>)"
      by (simp add: fan_step_def caller_def word_sless_alt)
    moreover from FMake have "fan_todo n (s\<lparr>fan_pc := FOut 0\<rparr>) < fan_todo n s"
      by (simp add: fan_todo_def)
    ultimately show ?thesis by blast
  next
    case (FOut i)
    from d(4) FOut have i: "0 \<le> sint i" "sint i \<le> sint n" by simp_all
    show ?thesis
    proof (cases "i <s n")
      case True
      with FOut np have "fan_step n Caller s
          = Some (s\<lparr>fan_workers := fan_workers s @ [WRecv],
              fan_chans := fan_chans s @ [False], fan_pc := FOut (i + 1)\<rparr>)"
        by (simp add: fan_step_def caller_def)
      moreover from True have lt: "sint i < sint n" by (simp add: word_sless_alt)
      with sint_lt [of n] have "sint (i + 1) = sint i + 1" by (simp add: sint_succ)
      with FOut lt i
      have "fan_todo n (s\<lparr>fan_workers := fan_workers s @ [WRecv],
              fan_chans := fan_chans s @ [False], fan_pc := FOut (i + 1)\<rparr>) < fan_todo n s"
        by (simp add: fan_todo_def)
      ultimately show ?thesis by blast
    next
      case False
      with FOut np have "fan_step n Caller s = Some (s\<lparr>fan_pc := FAdd 0\<rparr>)"
        by (simp add: fan_step_def caller_def)
      moreover from FOut have "fan_todo n (s\<lparr>fan_pc := FAdd 0\<rparr>) < fan_todo n s"
        by (simp add: fan_todo_def)
      ultimately show ?thesis by blast
    qed
  next
    case (FAdd k)
    from d(4) FAdd have w: "int (length (fan_workers s)) = sint n"
      and m: "length (fan_mergers s) = k" "k \<le> length (fan_workers s)"
      by simp_all
    from d(1) have lc: "length (fan_chans s) = length (fan_workers s)" by (rule chans_ok_length)
    show ?thesis
    proof (cases "k < length (fan_workers s)")
      case True
      from d(8) np FAdd have "sint (fan_wg s) = int (length (filter mg_active (fan_mergers s)))"
        by (simp add: counter_ok_def)
      moreover have "length (filter mg_active (fan_mergers s)) \<le> length (fan_mergers s)" by simp
      ultimately have r: "0 \<le> sint (fan_wg s)" "sint (fan_wg s) < 2147483647"
        using m True w b(2) by simp_all
      note a = wg_add_one [OF r]
      with FAdd np True lc
      have "fan_step n Caller s = Some (s\<lparr>fan_wg := fan_wg s + 1, fan_pc := FGo k\<rparr>)"
        by (simp add: fan_step_def caller_def)
      moreover from FAdd
      have "fan_todo n (s\<lparr>fan_wg := fan_wg s + 1, fan_pc := FGo k\<rparr>) < fan_todo n s"
        by (simp add: fan_todo_def)
      ultimately show ?thesis by blast
    next
      case False
      with FAdd np lc have "fan_step n Caller s = Some (s\<lparr>fan_pc := FFin\<rparr>)"
        by (simp add: fan_step_def caller_def)
      moreover from FAdd have "fan_todo n (s\<lparr>fan_pc := FFin\<rparr>) < fan_todo n s"
        by (simp add: fan_todo_def)
      ultimately show ?thesis by blast
    qed
  next
    case (FGo k)
    from d(4) FGo have w: "int (length (fan_workers s)) = sint n"
      and m: "k < length (fan_workers s)"
      by simp_all
    from FGo np have "fan_step n Caller s
        = Some (s\<lparr>fan_mergers := fan_mergers s @ [MRecv], fan_pc := FAdd (k + 1)\<rparr>)"
      by (simp add: fan_step_def caller_def)
    moreover from w m have "k < nat (sint n)" by simp
    with FGo
    have "fan_todo n (s\<lparr>fan_mergers := fan_mergers s @ [MRecv], fan_pc := FAdd (k + 1)\<rparr>)
        < fan_todo n s"
      by (simp add: fan_todo_def)
    ultimately show ?thesis by blast
  next
    case FFin
    with np have "fan_step n Caller s = Some (s\<lparr>fan_fin := FinWait, fan_pc := FRange\<rparr>)"
      by (simp add: fan_step_def caller_def)
    moreover from d(4) FFin have "fan_fin s = FinNone" by simp
    with FFin have "fan_todo n (s\<lparr>fan_fin := FinWait, fan_pc := FRange\<rparr>) < fan_todo n s"
      by (simp add: fan_todo_def)
    ultimately show ?thesis by blast
  next
    case FRange
    with pc show ?thesis by simp
  next
    case FEnd
    with pc show ?thesis by simp
  qed
qed


lemma progress_worker:
  assumes inv: "fan_inv n items s" and np: "\<not> fan_panicked s"
    and j: "j < length (fan_mergers s)" and m: "fan_mergers s ! j = MRecv"
  shows "\<exists>e s'. fan_step n e s = Some s' \<and> fan_todo n s' < fan_todo n s"
proof -
  note d = fan_invD [OF inv]
  from d(3) j have i: "j < length (fan_workers s)" by (simp add: mergers_ok_def)
  with d(1) have jc: "j < length (fan_chans s)" by (simp add: chans_ok_length)
  note wr = wk_rank_update [OF i]
  note mr = mg_rank_update [OF j]
  show ?thesis
  proof (cases "fan_workers s ! j")
    case WDone
    with d(1) i have "fan_chans s ! j" by (simp add: chans_ok_nth)
    with np j jc m have "fan_step n (Merge j) s
        = Some (s\<lparr>fan_mergers := (fan_mergers s)[j := MExit]\<rparr>)"
      by (simp add: fan_step_def fanIn_merger_def)
    moreover from mr [of MExit] m
    have "fan_todo n (s\<lparr>fan_mergers := (fan_mergers s)[j := MExit]\<rparr>) < fan_todo n s"
      by (simp add: fan_todo_def)
    ultimately show ?thesis by blast
  next
    case WClosing
    with d(1) i have "\<not> fan_chans s ! j" by (simp add: chans_ok_nth)
    with np i jc WClosing have "fan_step n (Work j) s
        = Some (s\<lparr>fan_chans := (fan_chans s)[j := True],
            fan_workers := (fan_workers s)[j := WDone]\<rparr>)"
      by (simp add: fan_step_def fanOut_worker_def)
    moreover from wr [of WDone] WClosing
    have "fan_todo n (s\<lparr>fan_chans := (fan_chans s)[j := True],
            fan_workers := (fan_workers s)[j := WDone]\<rparr>) < fan_todo n s"
      by (simp add: fan_todo_def)
    ultimately show ?thesis by blast
  next
    case (WSend v)
    with d(1) i have "\<not> fan_chans s ! j" by (simp add: chans_ok_nth)
    with np i j jc m WSend have "fan_step n (Hand j) s
        = Some (s\<lparr>fan_workers := (fan_workers s)[j := WRecv],
            fan_mergers := (fan_mergers s)[j := MSend (v * v)]\<rparr>)"
      by (simp add: fan_step_def hand_def)
    moreover from wr [of WRecv] mr [of "MSend (v * v)"] WSend m
    have "fan_todo n (s\<lparr>fan_workers := (fan_workers s)[j := WRecv],
            fan_mergers := (fan_mergers s)[j := MSend (v * v)]\<rparr>) < fan_todo n s"
      by (simp add: fan_todo_def)
    ultimately show ?thesis by blast
  next
    case WRecv
    show ?thesis
    proof (cases "chan_buf (fan_input s)")
      case (Cons x xs)
      with np i jc WRecv have "fan_step n (Work j) s
          = Some (s\<lparr>fan_input := (fan_input s)\<lparr>chan_buf := xs\<rparr>,
              fan_workers := (fan_workers s)[j := WSend x]\<rparr>)"
        by (simp add: fan_step_def fanOut_worker_def chan_recv_def)
      moreover from wr [of "WSend x"] WRecv Cons
      have "fan_todo n (s\<lparr>fan_input := (fan_input s)\<lparr>chan_buf := xs\<rparr>,
              fan_workers := (fan_workers s)[j := WSend x]\<rparr>) < fan_todo n s"
        by (simp add: fan_todo_def)
      ultimately show ?thesis by blast
    next
      case Nil
      show ?thesis
      proof (cases "chan_closed (fan_input s)")
        case True
        with np i jc WRecv Nil have "fan_step n (Work j) s
            = Some (s\<lparr>fan_workers := (fan_workers s)[j := WClosing]\<rparr>)"
          by (simp add: fan_step_def fanOut_worker_def chan_recv_def)
        moreover from wr [of WClosing] WRecv
        have "fan_todo n (s\<lparr>fan_workers := (fan_workers s)[j := WClosing]\<rparr>) < fan_todo n s"
          by (simp add: fan_todo_def)
        ultimately show ?thesis by blast
      next
        case False
        show ?thesis
        proof (cases "fan_pending s")
          case (Cons x xs)
          with np i WRecv Nil False have "fan_step n (FeedTo j) s
              = Some (s\<lparr>fan_pending := xs, fan_workers := (fan_workers s)[j := WSend x]\<rparr>)"
            by (simp add: fan_step_def feed_to_def)
          moreover from wr [of "WSend x"] WRecv Cons
          have "fan_todo n (s\<lparr>fan_pending := xs, fan_workers := (fan_workers s)[j := WSend x]\<rparr>)
              < fan_todo n s"
            by (simp add: fan_todo_def)
          ultimately show ?thesis by blast
        next
          case empty: Nil
          with np False have "fan_step n Feed s
              = Some (s\<lparr>fan_input := (fan_input s)\<lparr>chan_closed := True\<rparr>\<rparr>)"
            by (simp add: fan_step_def feed_def chan_close_def)
          moreover from False
          have "fan_todo n (s\<lparr>fan_input := (fan_input s)\<lparr>chan_closed := True\<rparr>\<rparr>) < fan_todo n s"
            by (simp add: fan_todo_def)
          ultimately show ?thesis by blast
        qed
      qed
    qed
  qed
qed

lemma progress_range:
  assumes inv: "fan_inv n items s" and np: "\<not> fan_panicked s" and pc: "fan_pc s = FRange"
  shows "\<exists>e s'. fan_step n e s = Some s' \<and> fan_todo n s' < fan_todo n s"
proof (cases "fan_out_closed s")
  case True
  with np pc have "fan_step n Caller s = Some (s\<lparr>fan_pc := FEnd\<rparr>)"
    by (simp add: fan_step_def caller_def)
  moreover from pc have "fan_todo n (s\<lparr>fan_pc := FEnd\<rparr>) < fan_todo n s"
    by (simp add: fan_todo_def)
  ultimately show ?thesis by blast
next
  case False
  note d = fan_invD [OF inv]
  from d(5) False have nd: "fan_fin s \<noteq> FinDone" by (simp add: out_ok_def)
  from d(4) pc have nn: "fan_fin s \<noteq> FinNone" by simp
  show ?thesis
  proof (cases "fan_fin s = FinClose")
    case True
    with np False have "fan_step n Finalizer s
        = Some (s\<lparr>fan_out_closed := True, fan_fin := FinDone\<rparr>)"
      by (simp add: fan_step_def finalizer_def)
    moreover from True
    have "fan_todo n (s\<lparr>fan_out_closed := True, fan_fin := FinDone\<rparr>) < fan_todo n s"
      by (simp add: fan_todo_def)
    ultimately show ?thesis by blast
  next
    case nc: False
    with nd nn have fw: "fan_fin s = FinWait" by (cases "fan_fin s") simp_all
    show ?thesis
    proof (cases "fan_wg s = 0")
      case True
      with np fw have "fan_step n Finalizer s = Some (s\<lparr>fan_fin := FinClose\<rparr>)"
        by (simp add: fan_step_def finalizer_def wg_wait_def)
      moreover from fw have "fan_todo n (s\<lparr>fan_fin := FinClose\<rparr>) < fan_todo n s"
        by (simp add: fan_todo_def)
      ultimately show ?thesis by blast
    next
      case nz: False
      then have "sint (fan_wg s) \<noteq> 0" by (simp add: sint_counter_zero)
      with d(8) np pc have "filter mg_active (fan_mergers s) \<noteq> []"
        by (auto simp: counter_ok_def)
      then obtain m where "m \<in> set (fan_mergers s)" and a: "mg_active m"
        by (auto simp: filter_empty_conv)
      then obtain j where j: "j < length (fan_mergers s)" and m: "fan_mergers s ! j = m"
        by (auto simp: in_set_conv_nth)
      note mr = mg_rank_update [OF j]
      from d(3) j have i: "j < length (fan_workers s)" by (simp add: mergers_ok_def)
      with d(1) have jc: "j < length (fan_chans s)" by (simp add: chans_ok_length)
      show ?thesis
      proof (cases m)
        case MRecv
        with m have "fan_mergers s ! j = MRecv" by simp
        from progress_worker [OF inv np j this] show ?thesis .
      next
        case (MSend v)
        with np j m pc False have "fan_step n (Deliver j) s
            = Some (s\<lparr>fan_received := fan_received s @ [v],
                fan_mergers := (fan_mergers s)[j := MRecv]\<rparr>)"
          by (simp add: fan_step_def deliver_def)
        moreover from mr [of MRecv] m MSend
        have "fan_todo n (s\<lparr>fan_received := fan_received s @ [v],
                fan_mergers := (fan_mergers s)[j := MRecv]\<rparr>) < fan_todo n s"
          by (simp add: fan_todo_def)
        ultimately show ?thesis by blast
      next
        case MExit
        from j m a have "1 \<le> int (length (filter mg_active (fan_mergers s)))"
          using mg_active_positive [of j "fan_mergers s"] by simp
        with d(8) np pc have "1 \<le> sint (fan_wg s)" by (simp add: counter_ok_def)
        from wg_done_positive [OF this] np j jc m MExit have "fan_step n (Merge j) s
            = Some (s\<lparr>fan_wg := fan_wg s - 1, fan_mergers := (fan_mergers s)[j := MDone]\<rparr>)"
          by (simp add: fan_step_def fanIn_merger_def)
        moreover from mr [of MDone] m MExit
        have "fan_todo n (s\<lparr>fan_wg := fan_wg s - 1, fan_mergers := (fan_mergers s)[j := MDone]\<rparr>)
            < fan_todo n s"
          by (simp add: fan_todo_def)
        ultimately show ?thesis by blast
      next
        case MDone
        with a show ?thesis by simp
      qed
    qed
  qed
qed

lemma fan_progress:
  assumes b: "0 \<le> sint n" "sint n < 2 ^ 31" and inv: "fan_inv n items s"
    and np: "\<not> fan_panicked s" and pc: "fan_pc s \<noteq> FEnd"
  shows "\<exists>e s'. fan_step n e s = Some s' \<and> fan_todo n s' < fan_todo n s"
proof (cases "fan_pc s = FRange")
  case True
  from progress_range [OF inv np True] show ?thesis .
next
  case False
  from progress_caller [OF b inv np False pc] show ?thesis by blast
qed

lemma fan_completes:
  "0 \<le> sint n \<Longrightarrow> sint n < 2 ^ 31 \<Longrightarrow> fan_inv n items s \<Longrightarrow> \<not> fan_panicked s \<Longrightarrow>
   \<exists>sch s'. fan_run n sch s = Some s' \<and> fan_pc s' = FEnd"
proof (induction "fan_todo n s" arbitrary: s rule: less_induct)
  case less
  show ?case
  proof (cases "fan_pc s = FEnd")
    case True
    then have "fan_run n [] s = Some s \<and> fan_pc s = FEnd" by simp
    then show ?thesis by blast
  next
    case False
    from fan_progress [OF less.prems False] obtain e s1
      where st: "fan_step n e s = Some s1" and lt: "fan_todo n s1 < fan_todo n s"
      by blast
    from fan_inv_step(1) [OF less.prems(3) st] have i1: "fan_inv n items s1" .
    from fan_step_no_panic [OF less.prems(1,2,3) st] have "\<not> fan_panicked s1" .
    from less.hyps [OF lt less.prems(1,2) i1 this] obtain sch s'
      where "fan_run n sch s1 = Some s'" and f: "fan_pc s' = FEnd"
      by blast
    with st have "fan_run n (e # sch) s = Some s'" by simp
    with f show ?thesis by blast
  qed
qed


section \<open>Fan-out and fan-in: the claims\<close>

lemma sum_list_all_empty:
  "\<forall>x \<in> set xs. f x = ({#} :: go_int multiset) \<Longrightarrow> sum_list (map f xs) = {#}"
  by (induction xs) simp_all

lemma fan_inv_closed:
  assumes inv: "fan_inv n items s" and oc: "fan_out_closed s"
  shows "fan_fin s = FinDone" and "\<forall>m \<in> set (fan_mergers s). m = MDone"
    and "length (fan_mergers s) = length (fan_workers s)"
    and "int (length (fan_workers s)) = sint n"
    and "\<forall>w \<in> set (fan_workers s). w = WDone"
    and "\<not> fan_panicked s" and "fan_wg s = 0"
proof -
  note d = fan_invD [OF inv]
  from d(5) oc show f: "fan_fin s = FinDone" and al: "\<forall>m \<in> set (fan_mergers s). m = MDone"
    by (simp_all add: out_ok_def)
  from d(4) f have pc: "fan_pc s = FRange \<or> fan_pc s = FEnd" by (cases "fan_pc s") simp_all
  with d(4) show l: "length (fan_mergers s) = length (fan_workers s)"
    and "int (length (fan_workers s)) = sint n"
    by auto
  show aw: "\<forall>w \<in> set (fan_workers s). w = WDone"
  proof
    fix w assume "w \<in> set (fan_workers s)"
    then obtain i where i: "i < length (fan_workers s)" and w: "fan_workers s ! i = w"
      by (auto simp: in_set_conv_nth)
    with l al have "fan_mergers s ! i = MDone" by simp
    with d(3) i l w show "w = WDone" by (simp add: mergers_ok_def)
  qed
  from inv pc show np: "\<not> fan_panicked s" by (auto simp: fan_inv_def split: if_splits)
  from al have "filter mg_active (fan_mergers s) = []"
    by (auto simp: filter_empty_conv)
  with d(8) [OF np] pc have "sint (fan_wg s) = 0"
    by (auto simp: counter_ok_def)
  then show "fan_wg s = 0" by (simp add: sint_counter_zero)
qed

lemma fan_inv_final:
  assumes inv: "fan_inv n items s" and e: "fan_pc s = FEnd" and pos: "0 < sint n"
  shows "mset (fan_received s) = image_mset (\<lambda>v. v * v) (mset items)"
proof -
  note d = fan_invD [OF inv]
  from d(4) e have "fan_fin s = FinDone" by simp
  with d(5) have oc: "fan_out_closed s" by (simp add: out_ok_def)
  note c = fan_inv_closed [OF inv oc]
  from c(4) pos have "fan_workers s \<noteq> []" by auto
  then obtain w where w: "w \<in> set (fan_workers s)" by (cases "fan_workers s") auto
  with c(5) have "w = WDone" by blast
  then have "wk_closing w" by simp
  with d(2) w have "chan_closed (fan_input s) \<and> chan_buf (fan_input s) = []"
    by (rule drained_okD)
  with d(6) have p: "fan_pending s = []" "chan_buf (fan_input s) = []"
    by (simp_all add: sender_ok_def)
  from c(5) have "\<forall>w \<in> set (fan_workers s). wk_item w = {#}" by auto
  then have ws: "sum_list (map wk_item (fan_workers s)) = {#}"
    by (rule sum_list_all_empty)
  from c(2) have "\<forall>m \<in> set (fan_mergers s). mg_item m = {#}" by auto
  then have ms: "sum_list (map mg_item (fan_mergers s)) = {#}"
    by (rule sum_list_all_empty)
  from d(7) p ws ms show ?thesis by (simp add: fan_items_def)
qed

lemma fan_inv_received:
  assumes inv: "fan_inv n items s"
  shows "mset (fan_received s) \<subseteq># image_mset (\<lambda>v. v * v) (mset items)"
proof -
  have "mset (fan_received s) \<subseteq># fan_items s" by (simp add: fan_items_def)
  with fan_invD(7) [OF inv] show ?thesis by simp
qed

text \<open>
  C1 (amended). With between 1 and \<open>2 ^ 31 - 1\<close> workers, for every list of items sent
  on the shared input channel (whatever its capacity) and under every interleaving:
  nothing panics; what the caller has received from the merged channel is at every
  moment part of the multiset of the squares of the items, so nothing is duplicated or
  invented; when the caller's loop has ended it is exactly that multiset, so nothing is
  lost; and every execution can be continued until the caller's loop ends.
\<close>

theorem fan_no_loss_no_duplication:
  assumes "0 < sint n" and "sint n < 2 ^ 31"
    and "fan_run n sch (fan_init items k) = Some s"
  shows "\<not> fan_panicked s
    \<and> mset (fan_received s) \<subseteq># image_mset (\<lambda>v. v * v) (mset items)
    \<and> (fan_pc s = FEnd \<longrightarrow> mset (fan_received s) = image_mset (\<lambda>v. v * v) (mset items))
    \<and> (\<exists>sch' s'. fan_run n sch' s = Some s' \<and> fan_pc s' = FEnd
          \<and> mset (fan_received s') = image_mset (\<lambda>v. v * v) (mset items))"
proof -
  from assms(1) have n0: "0 \<le> sint n" by simp
  have i0: "fan_inv n items (fan_init items k)" by (rule fan_inv_init)
  have p0: "\<not> fan_panicked (fan_init items k)" by (simp add: fan_init_def)
  have inv: "fan_inv n items s" using fan_inv_run [OF i0 assms(3)] .
  have np: "\<not> fan_panicked s" using fan_run_no_panic [OF n0 assms(2) i0 p0 assms(3)] .
  from fan_completes [OF n0 assms(2) inv np] obtain sch' s'
    where r: "fan_run n sch' s = Some s'" and e: "fan_pc s' = FEnd" by blast
  have "fan_inv n items s'" using fan_inv_run [OF inv r] .
  from fan_inv_final [OF this e assms(1)] r e
  have "\<exists>sch' s'. fan_run n sch' s = Some s' \<and> fan_pc s' = FEnd
          \<and> mset (fan_received s') = image_mset (\<lambda>v. v * v) (mset items)"
    by blast
  with np fan_inv_received [OF inv] fan_inv_final [OF inv _ assms(1)] show ?thesis by blast
qed


theorem fan_no_loss_no_duplication_witness:
  "0 < sint (2 :: go_int) \<and> sint (2 :: go_int) < 2 ^ 31
   \<and> fan_run 2 [Caller, Caller, Caller, Caller, Caller, Caller, Caller, Caller, Caller, Caller,
        Feed, Feed, Work 0, Work 1, Hand 1, Deliver 1, FeedTo 1, Feed, Hand 0, Hand 1,
        Deliver 0, Deliver 1, Work 0, Work 0, Work 1, Work 1, Merge 0, Merge 1, Merge 1, Merge 0,
        Finalizer, Finalizer, Caller] (fan_init [1, 2, 3] 2)
     = Some \<lparr>fan_pending = [],
         fan_input = \<lparr>chan_buf = [], chan_cap = 2, chan_closed = True\<rparr>,
         fan_workers = [WDone, WDone], fan_chans = [True, True],
         fan_mergers = [MDone, MDone], fan_wg = 0, fan_pc = FEnd, fan_fin = FinDone,
         fan_out_closed = True, fan_received = [4, 1, 9], fan_panicked = False\<rparr>
   \<and> mset [4, 1, 9 :: go_int] = image_mset (\<lambda>v. v * v) (mset [1, 2, 3])"
proof -
  have b: "0 < sint (2 :: go_int)" "sint (2 :: go_int) < 2 ^ 31" by simp_all
  have r: "fan_run 2 [Caller, Caller, Caller, Caller, Caller, Caller, Caller, Caller, Caller, Caller,
        Feed, Feed, Work 0, Work 1, Hand 1, Deliver 1, FeedTo 1, Feed, Hand 0, Hand 1,
        Deliver 0, Deliver 1, Work 0, Work 0, Work 1, Work 1, Merge 0, Merge 1, Merge 1, Merge 0,
        Finalizer, Finalizer, Caller] (fan_init [1, 2, 3] 2)
     = Some \<lparr>fan_pending = [],
         fan_input = \<lparr>chan_buf = [], chan_cap = 2, chan_closed = True\<rparr>,
         fan_workers = [WDone, WDone], fan_chans = [True, True],
         fan_mergers = [MDone, MDone], fan_wg = 0, fan_pc = FEnd, fan_fin = FinDone,
         fan_out_closed = True, fan_received = [4, 1, 9], fan_panicked = False\<rparr>"
    by code_simp
  from fan_no_loss_no_duplication [OF b r]
  have "mset [4, 1, 9 :: go_int] = image_mset (\<lambda>v. v * v) (mset [1, 2, 3])"
    by simp
  with b r show ?thesis by blast
qed

lemma fan_run_append:
  "fan_run n (a @ b) s = (case fan_run n a s of None \<Rightarrow> None | Some s' \<Rightarrow> fan_run n b s')"
  by (induction a arbitrary: s) (auto split: option.splits)

lemma spawn_workers_only:
  "0 \<le> sint n \<Longrightarrow> int k \<le> sint n \<Longrightarrow>
   fan_run n (replicate (Suc k) Caller) (fan_init items c)
   = Some ((fan_init items c)\<lparr>fan_workers := replicate k WRecv,
        fan_chans := replicate k False, fan_pc := FOut (word_of_nat k)\<rparr>)"
proof (induction k)
  case 0
  then show ?case by (simp add: fan_step_def caller_def fan_init_def word_sless_alt)
next
  case (Suc k)
  let ?s = "(fan_init items c)\<lparr>fan_workers := replicate k WRecv,
        fan_chans := replicate k False, fan_pc := FOut (word_of_nat k)\<rparr>"
  from Suc.prems have k: "int k < sint n" "int k \<le> sint n" by simp_all
  have ih: "fan_run n (replicate (Suc k) Caller) (fan_init items c) = Some ?s"
    by (rule Suc.IH [OF Suc.prems(1) k(2)])
  from k(1) sint_lt [of n] have "k < 2 ^ 63" by simp
  then have "sint (word_of_nat k :: go_int) = int k" by (rule sint_of_nat_go_int)
  with k(1) have g: "(word_of_nat k :: go_int) <s n" by (simp add: word_sless_alt)
  have step: "fan_run n [Caller] ?s
      = Some ((fan_init items c)\<lparr>fan_workers := replicate (Suc k) WRecv,
          fan_chans := replicate (Suc k) False, fan_pc := FOut (word_of_nat (Suc k))\<rparr>)"
    using g by (simp add: fan_step_def caller_def fan_init_def replicate_append_same add.commute)
  have e: "replicate (Suc (Suc k)) Caller = replicate (Suc k) Caller @ [Caller]"
    by (simp add: replicate_append_same)
  have "fan_run n (replicate (Suc (Suc k)) Caller) (fan_init items c)
      = fan_run n (replicate (Suc k) Caller @ [Caller]) (fan_init items c)"
    by (simp only: e)
  also have "\<dots> = fan_run n [Caller] ?s"
    by (simp only: fan_run_append ih option.case)
  also note step
  finally show ?case .
qed


lemma spawn_mergers_only:
  "j \<le> N \<Longrightarrow> j < 2 ^ 31 \<Longrightarrow>
   fan_run n (replicate (2 * j) Caller)
     ((fan_init items c)\<lparr>fan_workers := replicate N WRecv, fan_chans := replicate N False,
        fan_mergers := replicate 0 MRecv, fan_wg := word_of_nat 0, fan_pc := FAdd 0\<rparr>)
   = Some ((fan_init items c)\<lparr>fan_workers := replicate N WRecv, fan_chans := replicate N False,
        fan_mergers := replicate j MRecv, fan_wg := word_of_nat j, fan_pc := FAdd j\<rparr>)"
proof (induction j)
  case 0
  then show ?case by simp
next
  case (Suc j)
  let ?t = "\<lambda>j. (fan_init items c)\<lparr>fan_workers := replicate N WRecv,
        fan_chans := replicate N False, fan_mergers := replicate j MRecv,
        fan_wg := word_of_nat j, fan_pc := FAdd j\<rparr>"
  from Suc.prems have j: "j \<le> N" "j < 2 ^ 31" "j < N" "int j < 2147483647" by simp_all
  have ih: "fan_run n (replicate (2 * j) Caller) (?t 0) = Some (?t j)"
    by (rule Suc.IH [OF j(1,2)])
  from j(2) have sj: "sint (word_of_nat j :: wg_counter) = int j" by (rule sint_of_nat_counter)
  with j(4) have a: "wg_add 1 (word_of_nat j) = WgOk (word_of_nat j + 1)"
    using wg_add_one [of "word_of_nat j"] by simp
  have step: "fan_run n [Caller, Caller] (?t j) = Some (?t (Suc j))"
    using j(3) a
    by (simp add: fan_step_def caller_def fan_init_def replicate_append_same add.commute)
  have e: "replicate (2 * Suc j) Caller = replicate (2 * j) Caller @ [Caller, Caller]"
  proof -
    have "replicate (2 * Suc j) Caller = replicate (2 * j + 2) Caller" by simp
    also have "\<dots> = replicate (2 * j) Caller @ replicate 2 Caller" by (rule replicate_add)
    also have "replicate 2 Caller = [Caller, Caller]" by (simp add: numeral_2_eq_2)
    finally show ?thesis .
  qed
  have "fan_run n (replicate (2 * Suc j) Caller) (?t 0)
      = fan_run n (replicate (2 * j) Caller @ [Caller, Caller]) (?t 0)"
    by (simp only: e)
  also have "\<dots> = fan_run n [Caller, Caller] (?t j)"
    by (simp only: fan_run_append ih option.case)
  also note step
  finally show ?case .
qed

text \<open>
  With \<open>2 ^ 31\<close> workers, when the caller runs through \<open>fanOut\<close> and \<open>fanIn\<close> before any
  merger has returned, the last \<open>wg.Add(1)\<close> finds the counter at \<open>2 ^ 31 - 1\<close>, wraps
  it to \<open>- 2 ^ 31\<close> and panics.
\<close>

lemma fan_add_overflow:
  assumes n: "sint n = 2 ^ 31"
  shows "fan_run n (replicate (3 * 2 ^ 31 + 1) Caller) (fan_init items c)
    = Some ((fan_init items c)\<lparr>fan_workers := replicate (2 ^ 31) WRecv,
        fan_chans := replicate (2 ^ 31) False, fan_mergers := replicate (2 ^ 31 - 1) MRecv,
        fan_wg := - 2147483648, fan_pc := FAdd (2 ^ 31 - 1), fan_panicked := True\<rparr>)"
proof -
  define N :: nat where "N = 2 ^ 31"
  define j :: nat where "j = 2 ^ 31 - 1"
  let ?t = "\<lambda>j. (fan_init items c)\<lparr>fan_workers := replicate N WRecv,
        fan_chans := replicate N False, fan_mergers := replicate j MRecv,
        fan_wg := word_of_nat j, fan_pc := FAdd j\<rparr>"
  let ?s1 = "(fan_init items c)\<lparr>fan_workers := replicate N WRecv,
        fan_chans := replicate N False, fan_pc := FOut (word_of_nat N)\<rparr>"
  from n have nN: "int N = sint n" and n0: "0 \<le> sint n" by (simp_all add: N_def)
  have jN: "j < N" "j \<le> N" "j < 2 ^ 31" by (simp_all add: N_def j_def)
  have r1: "fan_run n (replicate (Suc N) Caller) (fan_init items c) = Some ?s1"
    by (rule spawn_workers_only) (use n0 nN in simp_all)
  have "sint (word_of_nat N :: go_int) = int N"
    by (rule sint_of_nat_go_int) (simp add: N_def)
  with nN have g: "\<not> (word_of_nat N :: go_int) <s n" by (simp add: word_sless_alt)
  have r2: "fan_run n [Caller] ?s1 = Some (?t 0)"
    using g by (simp add: fan_step_def caller_def fan_init_def)
  have r3: "fan_run n (replicate (2 * j) Caller) (?t 0) = Some (?t j)"
    by (rule spawn_mergers_only [OF jN(2,3)])
  have "sint (word_of_nat j :: wg_counter) = 2147483647"
    using sint_of_nat_counter [OF jN(3)] by (simp add: j_def)
  from wg_add_one_overflow [OF this]
  have o: "wg_add 1 (word_of_nat j) = WgPanic (word_of_nat j + 1)" .
  have w: "(word_of_nat j + 1 :: wg_counter) = - 2147483648" by (simp add: j_def)
  have r4: "fan_run n [Caller] (?t j)
      = Some ((fan_init items c)\<lparr>fan_workers := replicate N WRecv,
          fan_chans := replicate N False, fan_mergers := replicate j MRecv,
          fan_wg := - 2147483648, fan_pc := FAdd j, fan_panicked := True\<rparr>)"
    using jN(1) o w by (simp add: fan_step_def caller_def fan_init_def)
  have e: "replicate (Suc N + (1 + (2 * j + 1))) Caller
      = replicate (Suc N) Caller @ [Caller] @ replicate (2 * j) Caller @ [Caller]"
    by (simp only: replicate_add) simp
  have "fan_run n (replicate (Suc N + (1 + (2 * j + 1))) Caller) (fan_init items c)
      = Some ((fan_init items c)\<lparr>fan_workers := replicate N WRecv,
          fan_chans := replicate N False, fan_mergers := replicate j MRecv,
          fan_wg := - 2147483648, fan_pc := FAdd j, fan_panicked := True\<rparr>)"
    by (simp only: e fan_run_append r1 r2 r3 r4 option.case)
  moreover have "Suc N + (1 + (2 * j + 1)) = 3 * 2 ^ 31 + 1" by (simp add: N_def j_def)
  ultimately show ?thesis by (simp only: N_def j_def)
qed


text \<open>
  With no worker at all the stage loses every item: \<open>fanIn\<close> over no channels closes
  \<open>out\<close> at once and the caller's loop ends with nothing received, while the items are
  never taken from the sender. With \<open>2 ^ 31\<close> workers the stage can panic in \<open>wg.Add(1)\<close>
  before anything is received.
\<close>

theorem fan_no_workers_counterexample:
  "fan_run 0 [Caller, Caller, Caller, Caller, Finalizer, Finalizer, Caller] (fan_init [1, 2, 3] 0)
   = Some \<lparr>fan_pending = [1, 2, 3],
       fan_input = \<lparr>chan_buf = [], chan_cap = 0, chan_closed = False\<rparr>,
       fan_workers = [], fan_chans = [], fan_mergers = [], fan_wg = 0, fan_pc = FEnd,
       fan_fin = FinDone, fan_out_closed = True, fan_received = [], fan_panicked = False\<rparr>
   \<and> map_option (\<lambda>s. (fan_panicked s, fan_received s))
       (fan_run 2147483648 (replicate (3 * 2 ^ 31 + 1) Caller) (fan_init [1, 2, 3] 0))
     = Some (True, [])"
proof -
  have "fan_run 0 [Caller, Caller, Caller, Caller, Finalizer, Finalizer, Caller]
      (fan_init [1, 2, 3] 0)
   = Some \<lparr>fan_pending = [1, 2, 3],
       fan_input = \<lparr>chan_buf = [], chan_cap = 0, chan_closed = False\<rparr>,
       fan_workers = [], fan_chans = [], fan_mergers = [], fan_wg = 0, fan_pc = FEnd,
       fan_fin = FinDone, fan_out_closed = True, fan_received = [], fan_panicked = False\<rparr>"
    by code_simp
  moreover have "sint (2147483648 :: go_int) = 2 ^ 31" by simp
  from fan_add_overflow [OF this, of "[1, 2, 3]" 0]
  have "map_option (\<lambda>s. (fan_panicked s, fan_received s))
       (fan_run 2147483648 (replicate (3 * 2 ^ 31 + 1) Caller) (fan_init [1, 2, 3] 0))
     = Some (True, [])"
    by (simp only: option.map fan_state.simps fan_init_def)
  ultimately show ?thesis by blast
qed

section \<open>Fan-out and fan-in: the order of the closes\<close>

lemma out_closed_only_by_finalizer:
  assumes st: "fan_step n e s = Some s'" and ch: "fan_out_closed s' \<noteq> fan_out_closed s"
  shows "e = Finalizer \<and> fan_fin s = FinClose"
proof (cases e)
  case Feed
  with st ch show ?thesis
    by (auto simp: fan_step_def feed_def chan_close_def
        split: if_splits list.splits send_result.splits)
next
  case (FeedTo i)
  with st ch show ?thesis
    by (auto simp: fan_step_def feed_to_def split: if_splits list.splits)
next
  case Caller
  with st ch show ?thesis
    by (auto simp: fan_step_def caller_def split: if_splits fan_pc.splits wg_result.splits)
next
  case (Work i)
  with st ch show ?thesis
    by (auto simp: fan_step_def fanOut_worker_def
        split: if_splits fan_worker.splits recv_result.splits)
next
  case (Hand i)
  with st ch show ?thesis
    by (auto simp: fan_step_def hand_def split: if_splits fan_worker.splits)
next
  case (Merge i)
  with st ch show ?thesis
    by (auto simp: fan_step_def fanIn_merger_def
        split: if_splits fan_merger.splits wg_result.splits)
next
  case (Deliver i)
  with st ch show ?thesis
    by (auto simp: fan_step_def deliver_def split: if_splits fan_merger.splits)
next
  case Finalizer
  with st ch show ?thesis
    by (auto simp: fan_step_def finalizer_def split: if_splits fan_finalizer.splits)
qed

lemma fan_inv_closing:
  assumes inv: "fan_inv n items s" and np: "\<not> fan_panicked s" and f: "fan_fin s = FinClose"
  shows "fan_wg s = 0" and "\<forall>m \<in> set (fan_mergers s). m = MDone"
    and "int (length (fan_mergers s)) = sint n"
proof -
  note d = fan_invD [OF inv]
  from d(5) f show al: "\<forall>m \<in> set (fan_mergers s). m = MDone" by (simp add: out_ok_def)
  from d(4) f have pc: "fan_pc s = FRange" by (cases "fan_pc s") simp_all
  with d(4) show "int (length (fan_mergers s)) = sint n" by simp
  from al have "filter mg_active (fan_mergers s) = []" by (auto simp: filter_empty_conv)
  with d(8) [OF np] pc have "sint (fan_wg s) = 0" by (simp add: counter_ok_def)
  then show "fan_wg s = 0" by (simp add: sint_counter_zero)
qed

lemma worker_close_private:
  assumes inv: "fan_inv n items s" and st: "fan_step n (Work i) s = Some s'"
    and w: "fan_workers s ! i = WClosing"
  shows "fan_chans s' = (fan_chans s)[i := True] \<and> fan_out_closed s' = fan_out_closed s
    \<and> chan_closed (fan_input s) \<and> chan_buf (fan_input s) = []"
proof -
  note d = fan_invD [OF inv]
  from st have i: "i < length (fan_workers s)" and st': "fanOut_worker i s = Some s'"
    by (simp_all add: fan_step_def fanOut_worker_def split: if_splits)
  from d(1) i w have "\<not> fan_chans s ! i" by (simp add: chans_ok_nth)
  with st' i w have "s' = s\<lparr>fan_chans := (fan_chans s)[i := True],
      fan_workers := (fan_workers s)[i := WDone]\<rparr>"
    by (auto simp: fanOut_worker_def split: if_splits)
  moreover from i w have "WClosing \<in> set (fan_workers s)" by (metis nth_mem)
  with d(2) have "chan_closed (fan_input s) \<and> chan_buf (fan_input s) = []"
    using drained_okD [of "fan_workers s" "fan_input s" WClosing] by simp
  ultimately show ?thesis by simp
qed

text \<open>
  C2. For every number of workers and under every interleaving: whenever \<open>out\<close> is
  closed, the finalizer has closed it, the counter is zero, and all the mergers, one per
  worker, have returned; the only step that closes \<open>out\<close> is the finalizer's
  \<open>close(out)\<close>, and it runs with the counter at zero and every merger returned; a
  worker's \<open>close\<close> closes its own channel and nothing else, and runs only when \<open>input\<close>
  is closed and drained; and no send ever panics: the only step that can panic is one of
  the caller's.
\<close>

theorem two_phase_close:
  assumes "fan_run n sch (fan_init items c) = Some s"
  shows "(fan_out_closed s \<longrightarrow>
            fan_fin s = FinDone \<and> fan_wg s = 0 \<and> int (length (fan_mergers s)) = sint n
            \<and> (\<forall>m \<in> set (fan_mergers s). m = MDone))
    \<and> (\<forall>e s'. fan_step n e s = Some s' \<and> \<not> fan_out_closed s \<and> fan_out_closed s' \<longrightarrow>
            e = Finalizer \<and> fan_fin s = FinClose \<and> fan_wg s = 0
            \<and> int (length (fan_mergers s)) = sint n \<and> (\<forall>m \<in> set (fan_mergers s). m = MDone))
    \<and> (\<forall>i s'. fan_step n (Work i) s = Some s' \<and> fan_workers s ! i = WClosing \<longrightarrow>
            fan_chans s' = (fan_chans s)[i := True] \<and> fan_out_closed s' = fan_out_closed s
            \<and> chan_closed (fan_input s) \<and> chan_buf (fan_input s) = [])
    \<and> (\<forall>e s'. fan_step n e s = Some s' \<and> fan_panicked s' \<longrightarrow> e = Caller)"
proof -
  have inv: "fan_inv n items s" using fan_inv_run [OF fan_inv_init assms] .
  have a: "fan_out_closed s \<longrightarrow>
            fan_fin s = FinDone \<and> fan_wg s = 0 \<and> int (length (fan_mergers s)) = sint n
            \<and> (\<forall>m \<in> set (fan_mergers s). m = MDone)"
    using fan_inv_closed [OF inv] by simp
  have b: "\<forall>e s'. fan_step n e s = Some s' \<and> \<not> fan_out_closed s \<and> fan_out_closed s' \<longrightarrow>
            e = Finalizer \<and> fan_fin s = FinClose \<and> fan_wg s = 0
            \<and> int (length (fan_mergers s)) = sint n \<and> (\<forall>m \<in> set (fan_mergers s). m = MDone)"
  proof (intro allI impI)
    fix e s' assume h: "fan_step n e s = Some s' \<and> \<not> fan_out_closed s \<and> fan_out_closed s'"
    then have st: "fan_step n e s = Some s'" and "fan_out_closed s' \<noteq> fan_out_closed s"
      by auto
    from out_closed_only_by_finalizer [OF this] have e: "e = Finalizer" "fan_fin s = FinClose"
      by simp_all
    from st have np: "\<not> fan_panicked s" by (simp add: fan_step_def split: if_splits)
    from fan_inv_closing [OF inv np e(2)] e
    show "e = Finalizer \<and> fan_fin s = FinClose \<and> fan_wg s = 0
            \<and> int (length (fan_mergers s)) = sint n \<and> (\<forall>m \<in> set (fan_mergers s). m = MDone)"
      by simp
  qed
  have c: "\<forall>i s'. fan_step n (Work i) s = Some s' \<and> fan_workers s ! i = WClosing \<longrightarrow>
            fan_chans s' = (fan_chans s)[i := True] \<and> fan_out_closed s' = fan_out_closed s
            \<and> chan_closed (fan_input s) \<and> chan_buf (fan_input s) = []"
    using worker_close_private [OF inv] by blast
  have d: "\<forall>e s'. fan_step n e s = Some s' \<and> fan_panicked s' \<longrightarrow> e = Caller"
    using fan_inv_step(2) [OF inv] by blast
  from a b c d show ?thesis by blast
qed

theorem two_phase_close_witness:
  "fan_run 2 [Caller, Caller, Caller, Caller, Caller, Caller, Caller, Caller, Caller, Caller,
        Feed, Work 0, Hand 0, Deliver 0, Feed, Work 0, Work 1, Work 0, Work 1, Merge 0, Merge 1,
        Merge 0, Merge 1, Finalizer] (fan_init [3] 1)
     = Some \<lparr>fan_pending = [],
         fan_input = \<lparr>chan_buf = [], chan_cap = 1, chan_closed = True\<rparr>,
         fan_workers = [WDone, WDone], fan_chans = [True, True],
         fan_mergers = [MDone, MDone], fan_wg = 0, fan_pc = FRange, fan_fin = FinClose,
         fan_out_closed = False, fan_received = [9], fan_panicked = False\<rparr>
   \<and> fan_step 2 Finalizer \<lparr>fan_pending = [],
         fan_input = \<lparr>chan_buf = [], chan_cap = 1, chan_closed = True\<rparr>,
         fan_workers = [WDone, WDone], fan_chans = [True, True],
         fan_mergers = [MDone, MDone], fan_wg = 0, fan_pc = FRange, fan_fin = FinClose,
         fan_out_closed = False, fan_received = [9], fan_panicked = False\<rparr>
     = Some \<lparr>fan_pending = [],
         fan_input = \<lparr>chan_buf = [], chan_cap = 1, chan_closed = True\<rparr>,
         fan_workers = [WDone, WDone], fan_chans = [True, True],
         fan_mergers = [MDone, MDone], fan_wg = 0, fan_pc = FRange, fan_fin = FinDone,
         fan_out_closed = True, fan_received = [9], fan_panicked = False\<rparr>
   \<and> int (length [MDone, MDone]) = sint (2 :: go_int)"
proof -
  let ?s = "\<lparr>fan_pending = [],
         fan_input = \<lparr>chan_buf = [], chan_cap = 1, chan_closed = True\<rparr>,
         fan_workers = [WDone, WDone], fan_chans = [True, True],
         fan_mergers = [MDone, MDone], fan_wg = 0, fan_pc = FRange, fan_fin = FinClose,
         fan_out_closed = False, fan_received = [9], fan_panicked = False\<rparr>"
  have r: "fan_run 2 [Caller, Caller, Caller, Caller, Caller, Caller, Caller, Caller, Caller, Caller,
        Feed, Work 0, Hand 0, Deliver 0, Feed, Work 0, Work 1, Work 0, Work 1, Merge 0, Merge 1,
        Merge 0, Merge 1, Finalizer] (fan_init [3] 1) = Some ?s"
    by code_simp
  have st: "fan_step 2 Finalizer ?s = Some (?s\<lparr>fan_out_closed := True, fan_fin := FinDone\<rparr>)"
    by (simp add: fan_step_def finalizer_def)
  from two_phase_close [OF r]
  have "fan_step 2 Finalizer ?s = Some (?s\<lparr>fan_out_closed := True, fan_fin := FinDone\<rparr>)
      \<and> \<not> fan_out_closed ?s \<and> fan_out_closed (?s\<lparr>fan_out_closed := True, fan_fin := FinDone\<rparr>)
      \<longrightarrow> int (length (fan_mergers ?s)) = sint (2 :: go_int)"
    by blast
  with st have "int (length [MDone, MDone]) = sint (2 :: go_int)" by simp
  with r st show ?thesis by simp
qed

section \<open>Fan-out and fan-in: three workers, five items\<close>

text \<open>
  C8. The pool of workers that squares is \<open>fanOut\<close>'s (the \<open>worker\<close> function of the
  course formats strings). With 3 workers over the inputs 1, 2, 3, 4, 5, all sent and
  the input then closed, whatever the capacity of the input channel and the
  interleaving: nothing panics, draining the merged output yields exactly the values
  1, 4, 9, 16, 25, each once, and every execution can be continued until the output is
  drained.
\<close>

theorem three_workers_square_five:
  assumes "fan_run 3 sch (fan_init [1, 2, 3, 4, 5] c) = Some s"
  shows "\<not> fan_panicked s
    \<and> (fan_pc s = FEnd \<longrightarrow>
         mset (fan_received s) = {#1, 4, 9, 16, 25#} \<and> set (fan_received s) = {1, 4, 9, 16, 25})
    \<and> (\<exists>sch' s'. fan_run 3 sch' s = Some s' \<and> fan_pc s' = FEnd
          \<and> set (fan_received s') = {1, 4, 9, 16, 25})"
proof -
  have b: "0 < sint (3 :: go_int)" "0 \<le> sint (3 :: go_int)" "sint (3 :: go_int) < 2 ^ 31"
    by simp_all
  have sq: "image_mset (\<lambda>v. v * v) (mset [1, 2, 3, 4, 5 :: go_int]) = {#1, 4, 9, 16, 25#}"
    by simp
  have i0: "fan_inv 3 [1, 2, 3, 4, 5] (fan_init [1, 2, 3, 4, 5] c)" by (rule fan_inv_init)
  have p0: "\<not> fan_panicked (fan_init [1, 2, 3, 4, 5] c)" by (simp add: fan_init_def)
  have inv: "fan_inv 3 [1, 2, 3, 4, 5] s" using fan_inv_run [OF i0 assms] .
  have np: "\<not> fan_panicked s" using fan_run_no_panic [OF b(2,3) i0 p0 assms] .
  have fin: "\<And>t. fan_inv 3 [1, 2, 3, 4, 5] t \<Longrightarrow> fan_pc t = FEnd \<Longrightarrow>
      mset (fan_received t) = {#1, 4, 9, 16, 25#} \<and> set (fan_received t) = {1, 4, 9, 16, 25}"
  proof -
    fix t assume "fan_inv 3 [1, 2, 3, 4, 5] t" and "fan_pc t = FEnd"
    from fan_inv_final [OF this b(1)] sq have m: "mset (fan_received t) = {#1, 4, 9, 16, 25#}"
      by simp
    then have "set_mset (mset (fan_received t)) = set_mset {#1, 4, 9, 16, 25#}" by simp
    then have "set (fan_received t) = {1, 4, 9, 16, 25}" by simp
    with m show "mset (fan_received t) = {#1, 4, 9, 16, 25#}
        \<and> set (fan_received t) = {1, 4, 9, 16, 25}" by simp
  qed
  from fan_completes [OF b(2,3) inv np] obtain sch' s'
    where r: "fan_run 3 sch' s = Some s'" and e: "fan_pc s' = FEnd" by blast
  have "fan_inv 3 [1, 2, 3, 4, 5] s'" using fan_inv_run [OF inv r] .
  from fin [OF this e] r e
  have "\<exists>sch' s'. fan_run 3 sch' s = Some s' \<and> fan_pc s' = FEnd
          \<and> set (fan_received s') = {1, 4, 9, 16, 25}" by blast
  with np fin [OF inv] show ?thesis by blast
qed

theorem three_workers_square_five_witness:
  "fan_run 3
       [Caller, Caller, Caller, Caller, Caller, Caller, Caller, Caller, Caller, Caller,
        Caller, Caller, Caller, Feed, Feed, Feed, Feed, Feed, Feed, Work 0, Work 1, Work 2,
        Hand 2, Hand 1, Hand 0, Deliver 1, Deliver 2, Deliver 0, Work 0, Work 1, Hand 1,
        Deliver 1, Hand 0, Deliver 0, Work 0, Work 1, Work 2, Work 0, Merge 0, Merge 0,
        Work 1, Merge 1, Merge 1, Work 2, Merge 2, Merge 2, Finalizer, Finalizer, Caller]
       (fan_init [1, 2, 3, 4, 5] 5)
     = Some \<lparr>fan_pending = [],
         fan_input = \<lparr>chan_buf = [], chan_cap = 5, chan_closed = True\<rparr>,
         fan_workers = [WDone, WDone, WDone], fan_chans = [True, True, True],
         fan_mergers = [MDone, MDone, MDone], fan_wg = 0, fan_pc = FEnd, fan_fin = FinDone,
         fan_out_closed = True, fan_received = [4, 9, 1, 25, 16], fan_panicked = False\<rparr>
   \<and> set [4, 9, 1, 25, 16 :: go_int] = {1, 4, 9, 16, 25}"
proof -
  have r: "fan_run 3
       [Caller, Caller, Caller, Caller, Caller, Caller, Caller, Caller, Caller, Caller,
        Caller, Caller, Caller, Feed, Feed, Feed, Feed, Feed, Feed, Work 0, Work 1, Work 2,
        Hand 2, Hand 1, Hand 0, Deliver 1, Deliver 2, Deliver 0, Work 0, Work 1, Hand 1,
        Deliver 1, Hand 0, Deliver 0, Work 0, Work 1, Work 2, Work 0, Merge 0, Merge 0,
        Work 1, Merge 1, Merge 1, Work 2, Merge 2, Merge 2, Finalizer, Finalizer, Caller]
       (fan_init [1, 2, 3, 4, 5] 5)
     = Some \<lparr>fan_pending = [],
         fan_input = \<lparr>chan_buf = [], chan_cap = 5, chan_closed = True\<rparr>,
         fan_workers = [WDone, WDone, WDone], fan_chans = [True, True, True],
         fan_mergers = [MDone, MDone, MDone], fan_wg = 0, fan_pc = FEnd, fan_fin = FinDone,
         fan_out_closed = True, fan_received = [4, 9, 1, 25, 16], fan_panicked = False\<rparr>"
    by code_simp
  from three_workers_square_five [OF r]
  have "set [4, 9, 1, 25, 16 :: go_int] = {1, 4, 9, 16, 25}" by simp
  with r show ?thesis by blast
qed

section \<open>Fan-in over no channels\<close>

lemma fan_empty_step:
  assumes inv: "fan_inv 0 items s" and em: "fan_empty s" and st: "fan_step 0 e s = Some s'"
  shows "fan_empty s'"
proof (cases e)
  case Feed
  with st em show ?thesis
    by (auto simp: fan_step_def feed_def fan_empty_def chan_close_def
        split: if_splits list.splits send_result.splits)
next
  case (FeedTo i)
  with st em show ?thesis
    by (auto simp: fan_step_def feed_to_def fan_empty_def split: if_splits list.splits)
next
  case Caller
  from fan_invD(4) [OF inv] em have "\<And>k. fan_pc s \<noteq> FGo k"
    and "\<And>i. fan_pc s = FOut i \<Longrightarrow> sint i = 0"
    by (auto simp: fan_empty_def)
  with Caller st em show ?thesis
    by (auto simp: fan_step_def caller_def fan_empty_def word_sless_alt
        split: if_splits fan_pc.splits wg_result.splits)
next
  case (Work i)
  with st em show ?thesis by (simp add: fan_step_def fanOut_worker_def fan_empty_def split: if_splits)
next
  case (Hand i)
  with st em show ?thesis by (simp add: fan_step_def hand_def fan_empty_def split: if_splits)
next
  case (Merge i)
  with st em show ?thesis by (simp add: fan_step_def fanIn_merger_def fan_empty_def split: if_splits)
next
  case (Deliver i)
  with st em show ?thesis by (simp add: fan_step_def deliver_def fan_empty_def split: if_splits)
next
  case Finalizer
  with st em show ?thesis
    by (auto simp: fan_step_def finalizer_def fan_empty_def split: if_splits fan_finalizer.splits)
qed

lemma fan_empty_run:
  "fan_inv 0 items s \<Longrightarrow> fan_empty s \<Longrightarrow> fan_run 0 sch s = Some s' \<Longrightarrow> fan_empty s'"
proof (induction sch arbitrary: s)
  case Nil
  then show ?case by simp
next
  case (Cons e es)
  from Cons.prems(3) obtain s1 where st: "fan_step 0 e s = Some s1"
    and r: "fan_run 0 es s1 = Some s'"
    by (auto split: option.splits)
  from fan_inv_step(1) [OF Cons.prems(1) st] have i1: "fan_inv 0 items s1" .
  from fan_empty_step [OF Cons.prems(1,2) st] have "fan_empty s1" .
  from Cons.IH [OF i1 this r] show ?case .
qed

lemma fan_empty_counter:
  assumes inv: "fan_inv 0 items s" and em: "fan_empty s" and np: "\<not> fan_panicked s"
  shows "fan_wg s = 0"
proof -
  from fan_invD(4) [OF inv] em have "fan_pending_add (fan_pc s) = 0"
    by (cases "fan_pc s") (auto simp: fan_empty_def)
  with fan_invD(8) [OF inv np] em have "sint (fan_wg s) = 0"
    by (simp add: counter_ok_def fan_empty_def)
  then show ?thesis by (simp add: sint_counter_zero)
qed

text \<open>
  C10. \<open>fanIn\<close> over no channels (\<open>fanOut\<close> with 0 workers returns none): under every
  interleaving there is never a merger, the counter stays zero, nothing panics and the
  caller never receives a value; the finalizer's \<open>wg.Wait()\<close> returns as soon as it runs
  and its \<open>close(out)\<close> follows; and every execution can be continued until the caller's
  loop over \<open>out\<close> has ended, on the closed channel, with nothing received.
\<close>

theorem fanIn_no_channels:
  assumes "fan_run 0 sch (fan_init items c) = Some s"
  shows "fan_mergers s = [] \<and> fan_wg s = 0 \<and> \<not> fan_panicked s \<and> fan_received s = []
    \<and> (fan_fin s = FinWait \<longrightarrow> finalizer s = Some (s\<lparr>fan_fin := FinClose\<rparr>))
    \<and> (fan_fin s = FinClose \<longrightarrow>
         finalizer s = Some (s\<lparr>fan_out_closed := True, fan_fin := FinDone\<rparr>))
    \<and> (\<exists>sch' s'. fan_run 0 sch' s = Some s' \<and> fan_pc s' = FEnd \<and> fan_out_closed s'
          \<and> fan_received s' = [])"
proof -
  have b: "0 \<le> sint (0 :: go_int)" "sint (0 :: go_int) < 2 ^ 31" by simp_all
  have i0: "fan_inv 0 items (fan_init items c)" by (rule fan_inv_init)
  have p0: "\<not> fan_panicked (fan_init items c)" by (simp add: fan_init_def)
  have e0: "fan_empty (fan_init items c)" by (simp add: fan_empty_def fan_init_def)
  have inv: "fan_inv 0 items s" using fan_inv_run [OF i0 assms] .
  have np: "\<not> fan_panicked s" using fan_run_no_panic [OF b i0 p0 assms] .
  have em: "fan_empty s" using fan_empty_run [OF i0 e0 assms] .
  have z: "fan_wg s = 0" using fan_empty_counter [OF inv em np] .
  from z have w: "fan_fin s = FinWait \<longrightarrow> finalizer s = Some (s\<lparr>fan_fin := FinClose\<rparr>)"
    by (simp add: finalizer_def wg_wait_def)
  from fan_invD(5) [OF inv]
  have cl: "fan_fin s = FinClose \<longrightarrow>
         finalizer s = Some (s\<lparr>fan_out_closed := True, fan_fin := FinDone\<rparr>)"
    by (auto simp: finalizer_def out_ok_def)
  from fan_completes [OF b inv np] obtain sch' s'
    where r: "fan_run 0 sch' s = Some s'" and e: "fan_pc s' = FEnd" by blast
  have inv': "fan_inv 0 items s'" using fan_inv_run [OF inv r] .
  have "fan_empty s'" using fan_empty_run [OF inv em r] .
  then have rc: "fan_received s' = []" by (simp add: fan_empty_def)
  from fan_invD(4,5) [OF inv'] e have "fan_out_closed s'" by (simp add: out_ok_def)
  with r e rc have "\<exists>sch' s'. fan_run 0 sch' s = Some s' \<and> fan_pc s' = FEnd \<and> fan_out_closed s'
          \<and> fan_received s' = []" by blast
  with em z np w cl show ?thesis by (simp add: fan_empty_def)
qed

theorem fanIn_no_channels_witness:
  "fan_run 0 [Caller, Caller, Caller, Caller] (fan_init [] 0)
     = Some \<lparr>fan_pending = [],
         fan_input = \<lparr>chan_buf = [], chan_cap = 0, chan_closed = False\<rparr>,
         fan_workers = [], fan_chans = [], fan_mergers = [], fan_wg = 0, fan_pc = FRange,
         fan_fin = FinWait, fan_out_closed = False, fan_received = [], fan_panicked = False\<rparr>
   \<and> finalizer \<lparr>fan_pending = [],
         fan_input = \<lparr>chan_buf = [], chan_cap = 0, chan_closed = False\<rparr>,
         fan_workers = [], fan_chans = [], fan_mergers = [], fan_wg = 0, fan_pc = FRange,
         fan_fin = FinWait, fan_out_closed = False, fan_received = [], fan_panicked = False\<rparr>
     = Some \<lparr>fan_pending = [],
         fan_input = \<lparr>chan_buf = [], chan_cap = 0, chan_closed = False\<rparr>,
         fan_workers = [], fan_chans = [], fan_mergers = [], fan_wg = 0, fan_pc = FRange,
         fan_fin = FinClose, fan_out_closed = False, fan_received = [], fan_panicked = False\<rparr>"
proof -
  let ?s = "\<lparr>fan_pending = [],
         fan_input = \<lparr>chan_buf = [], chan_cap = 0, chan_closed = False\<rparr>,
         fan_workers = [], fan_chans = [], fan_mergers = [], fan_wg = 0, fan_pc = FRange,
         fan_fin = FinWait, fan_out_closed = False, fan_received = [], fan_panicked = False\<rparr>"
  have r: "fan_run 0 [Caller, Caller, Caller, Caller] (fan_init [] 0) = Some ?s"
    by code_simp
  from fanIn_no_channels [OF r]
  have "fan_fin ?s = FinWait \<longrightarrow> finalizer ?s = Some (?s\<lparr>fan_fin := FinClose\<rparr>)"
    by blast
  with r show ?thesis by simp
qed

section \<open>WaitGroup: the counter never goes negative\<close>

lemma dl_done_decrements:
  assumes i: "dl_inv K s" and st: "dl_step K (TaskDone p) s = Some s'"
  shows "1 \<le> sint (dl_wg s) \<and> \<not> dl_panicked s' \<and> sint (dl_wg s') = sint (dl_wg s) - 1"
proof -
  from st obtain ident where t: "task_of s p = Some (ident, TDeferred)"
    by (auto simp: dl_step_def downloadFile_def split: if_splits option.splits dl_task.splits)
  note d = task_ofD [OF t]
  from d have pos: "1 \<le> int (length (filter dl_active (dl_tasks s)))"
    using active_positive [of p "dl_tasks s"] by simp
  from i have w: "sint (dl_wg s) = int (length (filter dl_active (dl_tasks s))) + dl_pending (dl_pc s)"
    and np: "\<not> dl_panicked s"
    by (simp_all add: dl_inv_def dl_counter_ok_def)
  from w dl_pending_nonneg [of "dl_pc s"] pos have ge: "1 \<le> sint (dl_wg s)" by simp
  note a = wg_done_positive [OF ge]
  with st t np have "s' = set_task p TFinished (s\<lparr>dl_wg := dl_wg s - 1\<rparr>)"
    by (simp add: dl_step_def downloadFile_def)
  with a ge np show ?thesis by (simp add: set_task_def)
qed

lemma fan_done_decrements:
  assumes inv: "fan_inv n items t" and st: "fan_step n (Merge i) t = Some t'"
    and m: "fan_mergers t ! i = MExit"
  shows "1 \<le> sint (fan_wg t) \<and> \<not> fan_panicked t' \<and> sint (fan_wg t') = sint (fan_wg t) - 1"
proof -
  from st have np: "\<not> fan_panicked t" and j: "i < length (fan_mergers t)"
    and jc: "i < length (fan_chans t)"
    by (simp_all add: fan_step_def fanIn_merger_def split: if_splits)
  from fan_invD(8) [OF inv np] have c: "sint (fan_wg t)
      = int (length (filter mg_active (fan_mergers t))) + fan_pending_add (fan_pc t)"
    by (simp add: counter_ok_def)
  from j m have "1 \<le> int (length (filter mg_active (fan_mergers t)))"
    using mg_active_positive [of i "fan_mergers t"] by simp
  with c fan_pending_add_nonneg [of "fan_pc t"] have ge: "1 \<le> sint (fan_wg t)" by simp
  note a = wg_done_positive [OF ge]
  with st np j jc m
  have "t' = t\<lparr>fan_wg := fan_wg t - 1, fan_mergers := (fan_mergers t)[i := MDone]\<rparr>"
    by (simp add: fan_step_def fanIn_merger_def)
  with a ge np show ?thesis by simp
qed

text \<open>
  C9. In the course's use of the WaitGroup (the download tasks, 3 in the course and here
  any number below \<open>2 ^ 31\<close>) and in \<open>fanIn\<close>'s (one merger per channel, fewer than
  \<open>2 ^ 31\<close> channels), under every interleaving: nothing panics; the counter is never
  negative, being the number of tasks spawned and still to call \<open>Done\<close>, plus one while
  the coordinator stands between \<open>Add(1)\<close> and the \<open>go\<close> statement, so that every
  \<open>Done\<close> has its \<open>Add(1)\<close> before it; and every \<open>Done\<close> finds the counter at one or
  more and takes it down by one.
\<close>

theorem waitgroup_counter_never_negative:
  "(sint K < 2 ^ 31 \<and> dl_run K sch dl_init = Some s \<longrightarrow>
      \<not> dl_panicked s \<and> 0 \<le> sint (dl_wg s)
      \<and> sint (dl_wg s) = int (length (filter dl_active (dl_tasks s))) + dl_pending (dl_pc s)
      \<and> (\<forall>p s'. dl_step K (TaskDone p) s = Some s' \<longrightarrow>
            1 \<le> sint (dl_wg s) \<and> \<not> dl_panicked s' \<and> sint (dl_wg s') = sint (dl_wg s) - 1))
   \<and> (0 \<le> sint n \<and> sint n < 2 ^ 31 \<and> fan_run n sch' (fan_init items c) = Some t \<longrightarrow>
      \<not> fan_panicked t \<and> 0 \<le> sint (fan_wg t)
      \<and> sint (fan_wg t)
          = int (length (filter mg_active (fan_mergers t))) + fan_pending_add (fan_pc t)
      \<and> (\<forall>i t'. fan_step n (Merge i) t = Some t' \<and> fan_mergers t ! i = MExit \<longrightarrow>
            1 \<le> sint (fan_wg t) \<and> \<not> fan_panicked t' \<and> sint (fan_wg t') = sint (fan_wg t) - 1))"
proof (rule conjI; rule impI)
  assume h: "sint K < 2 ^ 31 \<and> dl_run K sch dl_init = Some s"
  then have i: "dl_inv K s" using dl_inv_run [OF _ dl_inv_init] by blast
  then have np: "\<not> dl_panicked s"
    and w: "sint (dl_wg s) = int (length (filter dl_active (dl_tasks s))) + dl_pending (dl_pc s)"
    by (simp_all add: dl_inv_def dl_counter_ok_def)
  from w dl_pending_nonneg [of "dl_pc s"] have "0 \<le> sint (dl_wg s)" by simp
  with np w dl_done_decrements [OF i]
  show "\<not> dl_panicked s \<and> 0 \<le> sint (dl_wg s)
      \<and> sint (dl_wg s) = int (length (filter dl_active (dl_tasks s))) + dl_pending (dl_pc s)
      \<and> (\<forall>p s'. dl_step K (TaskDone p) s = Some s' \<longrightarrow>
            1 \<le> sint (dl_wg s) \<and> \<not> dl_panicked s' \<and> sint (dl_wg s') = sint (dl_wg s) - 1)"
    by blast
next
  assume h: "0 \<le> sint n \<and> sint n < 2 ^ 31 \<and> fan_run n sch' (fan_init items c) = Some t"
  have i0: "fan_inv n items (fan_init items c)" by (rule fan_inv_init)
  have p0: "\<not> fan_panicked (fan_init items c)" by (simp add: fan_init_def)
  from h have inv: "fan_inv n items t" using fan_inv_run [OF i0] by blast
  from h have np: "\<not> fan_panicked t" using fan_run_no_panic [OF _ _ i0 p0] by blast
  from fan_invD(8) [OF inv np] have w: "sint (fan_wg t)
      = int (length (filter mg_active (fan_mergers t))) + fan_pending_add (fan_pc t)"
    by (simp add: counter_ok_def)
  with fan_pending_add_nonneg [of "fan_pc t"] have "0 \<le> sint (fan_wg t)" by simp
  with np w fan_done_decrements [OF inv]
  show "\<not> fan_panicked t \<and> 0 \<le> sint (fan_wg t)
      \<and> sint (fan_wg t)
          = int (length (filter mg_active (fan_mergers t))) + fan_pending_add (fan_pc t)
      \<and> (\<forall>i t'. fan_step n (Merge i) t = Some t' \<and> fan_mergers t ! i = MExit \<longrightarrow>
            1 \<le> sint (fan_wg t) \<and> \<not> fan_panicked t' \<and> sint (fan_wg t') = sint (fan_wg t) - 1)"
    by blast
qed

theorem waitgroup_counter_never_negative_witness:
  "sint (3 :: go_int) < 2 ^ 31
   \<and> dl_run 3 [Coordinator, Coordinator, Coordinator, Coordinator, TaskStart 0, TaskEnd 0] dl_init
     = Some \<lparr>dl_wg = 2, dl_pc = DAdd 3, dl_tasks = [(1, TDeferred), (2, TSpawned)],
         dl_out = [Downloading 1, Downloaded 1], dl_panicked = False\<rparr>
   \<and> dl_step 3 (TaskDone 0)
       \<lparr>dl_wg = 2, dl_pc = DAdd 3, dl_tasks = [(1, TDeferred), (2, TSpawned)],
         dl_out = [Downloading 1, Downloaded 1], dl_panicked = False\<rparr>
     = Some \<lparr>dl_wg = 1, dl_pc = DAdd 3, dl_tasks = [(1, TFinished), (2, TSpawned)],
         dl_out = [Downloading 1, Downloaded 1], dl_panicked = False\<rparr>
   \<and> 0 \<le> sint (2 :: go_int) \<and> sint (2 :: go_int) < 2 ^ 31
   \<and> fan_run 2 [Caller, Caller, Caller, Caller, Caller, Caller, Caller, Caller, Caller, Caller,
        Feed, Work 0, Work 1, Work 1] (fan_init [] 0)
     = Some \<lparr>fan_pending = [],
         fan_input = \<lparr>chan_buf = [], chan_cap = 0, chan_closed = True\<rparr>,
         fan_workers = [WClosing, WDone], fan_chans = [False, True],
         fan_mergers = [MRecv, MRecv], fan_wg = 2, fan_pc = FRange, fan_fin = FinWait,
         fan_out_closed = False, fan_received = [], fan_panicked = False\<rparr>
   \<and> sint (2 :: wg_counter) = 2"
proof -
  let ?s = "\<lparr>dl_wg = 2, dl_pc = DAdd 3, dl_tasks = [(1, TDeferred), (2, TSpawned)],
         dl_out = [Downloading 1, Downloaded 1], dl_panicked = False\<rparr>"
  let ?t = "\<lparr>fan_pending = [],
         fan_input = \<lparr>chan_buf = [], chan_cap = 0, chan_closed = True\<rparr>,
         fan_workers = [WClosing, WDone], fan_chans = [False, True],
         fan_mergers = [MRecv, MRecv], fan_wg = 2, fan_pc = FRange, fan_fin = FinWait,
         fan_out_closed = False, fan_received = [], fan_panicked = False\<rparr>"
  have b: "sint (3 :: go_int) < 2 ^ 31" "0 \<le> sint (2 :: go_int)" "sint (2 :: go_int) < 2 ^ 31"
    by simp_all
  have r: "dl_run 3 [Coordinator, Coordinator, Coordinator, Coordinator, TaskStart 0, TaskEnd 0]
      dl_init = Some ?s"
    by code_simp
  have st: "dl_step 3 (TaskDone 0) ?s
      = Some \<lparr>dl_wg = 1, dl_pc = DAdd 3, dl_tasks = [(1, TFinished), (2, TSpawned)],
         dl_out = [Downloading 1, Downloaded 1], dl_panicked = False\<rparr>"
    by code_simp
  have f: "fan_run 2 [Caller, Caller, Caller, Caller, Caller, Caller, Caller, Caller, Caller,
        Caller, Feed, Work 0, Work 1, Work 1] (fan_init [] 0) = Some ?t"
    by code_simp
  from waitgroup_counter_never_negative [of 3 "[Coordinator, Coordinator, Coordinator,
      Coordinator, TaskStart 0, TaskEnd 0]" ?s 2 "[Caller, Caller, Caller, Caller, Caller, Caller,
      Caller, Caller, Caller, Caller, Feed, Work 0, Work 1, Work 1]" "[]" 0 ?t] b r f
  have "sint (fan_wg ?t) = int (length (filter mg_active (fan_mergers ?t)))
      + fan_pending_add (fan_pc ?t)"
    by blast
  then have "sint (2 :: wg_counter) = 2" by simp
  with b r st f show ?thesis by blast
qed

section \<open>The worker pool: every job yields its result\<close>


lemma jobs_from_step:
  "1 \<le> sint j \<Longrightarrow> j \<le>s 5 \<Longrightarrow> jobs_from j = make_job j # jobs_from (j + 1)"
proof -
  assume a: "1 \<le> sint j" and b: "j \<le>s 5"
  from b have le: "sint j \<le> 5" by (simp add: word_sle_eq)
  then have s: "sint (j + 1) = sint j + 1" by (simp add: sint_succ)
  from le have "[sint j .. 5] = sint j # [sint j + 1 .. 5]" by (simp add: upto_rec1)
  with s show ?thesis by (simp add: jobs_from_def)
qed

lemma jobs_from_end: "\<not> j \<le>s 5 \<Longrightarrow> jobs_from j = []"
  by (simp add: jobs_from_def word_sle_eq)

lemma length_jobs_from: "length (jobs_from 1) = 5"
  by (simp add: jobs_from_def)

lemma jobs_from_1: "jobs_from 1 = [make_job 1, make_job 2, make_job 3, make_job 4, make_job 5]"
  by (simp add: jobs_from_def upto_rec1)

lemma make_job_vals:
  "make_job 1 = \<lparr>ID = 1, Data = ''Job 1 data''\<rparr>"
  "make_job 2 = \<lparr>ID = 2, Data = ''Job 2 data''\<rparr>"
  "make_job 3 = \<lparr>ID = 3, Data = ''Job 3 data''\<rparr>"
  "make_job 4 = \<lparr>ID = 4, Data = ''Job 4 data''\<rparr>"
  "make_job 5 = \<lparr>ID = 5, Data = ''Job 5 data''\<rparr>"
  by (simp_all add: make_job_def format_int_def digits.simps)

lemma pool_inv_init: "pool_inv pool_init"
  by (simp add: pool_inv_def pool_init_def make_chan_def pool_items_def)

lemma pool_size:
  assumes "pool_inv s"
  shows "length (pool_unsent (pool_pc s)) + length (chan_buf (pool_jobs s))
         + size (sum_list (map pw_item (pool_workers s)))
         + length (chan_buf (pool_results s)) + length (pool_collected s) = 5"
proof -
  from assms have "size (pool_items s) = size (image_mset process (mset (jobs_from 1)))"
    by (simp add: pool_inv_def)
  then show ?thesis by (simp add: pool_items_def length_jobs_from)
qed

lemma pw_items_put:
  "p < length ws \<Longrightarrow> pw_item (ws ! p) = {#} \<Longrightarrow>
   sum_list (map pw_item (ws[p := w])) = sum_list (map pw_item ws) + pw_item w"
  using sum_list_map_update [of p ws pw_item w] by simp

lemma pw_items_take:
  "p < length ws \<Longrightarrow> pw_item w = {#} \<Longrightarrow>
   sum_list (map pw_item ws) = sum_list (map pw_item (ws[p := w])) + pw_item (ws ! p)"
  using sum_list_map_update [of p ws pw_item w] by simp

lemma pool_main_inv:
  assumes i: "pool_inv s" and st: "pool_main s = Some s'"
  shows "pool_inv s'"
proof (cases "pool_pc s")
  case (PSpawn w)
  from i PSpawn have w: "1 \<le> sint w" "sint w \<le> 4" by (simp_all add: pool_inv_def)
  then have s: "sint (w + 1) = sint w + 1" by (simp add: sint_succ)
  show ?thesis
  proof (cases "w \<le>s 3")
    case True
    with st PSpawn have s': "s' = s\<lparr>pool_workers := pool_workers s @ [PRecv], pool_pc := PSpawn (w + 1)\<rparr>"
      by (simp add: pool_main_def)
    from True have "sint w \<le> 3" by (simp add: word_sle_eq)
    with i PSpawn s w show ?thesis unfolding s'
      by (auto simp: pool_inv_def pool_items_def)
  next
    case False
    with st PSpawn have s': "s' = s\<lparr>pool_pc := PSubmit 1\<rparr>"
      by (simp add: pool_main_def)
    from False w have "sint w = 4" by (simp add: word_sle_eq)
    with i PSpawn show ?thesis unfolding s'
      by (auto simp: pool_inv_def pool_items_def)
  qed
next
  case (PSubmit j)
  from i PSubmit have j: "1 \<le> sint j" "sint j \<le> 6" and op: "\<not> chan_closed (pool_jobs s)"
    and cap: "chan_cap (pool_jobs s) = 5"
    by (simp_all add: pool_inv_def)
  then have s: "sint (j + 1) = sint j + 1" by (simp add: sint_succ)
  show ?thesis
  proof (cases "j \<le>s 5")
    case True
    then have le: "sint j \<le> 5" by (simp add: word_sle_eq)
    from j(1) True have u: "jobs_from j = make_job j # jobs_from (j + 1)" by (rule jobs_from_step)
    from pool_size [OF i] PSubmit u have "length (chan_buf (pool_jobs s)) < 5" by simp
    with st PSubmit True op cap
    have s': "s' = s\<lparr>pool_jobs := (pool_jobs s)\<lparr>chan_buf := chan_buf (pool_jobs s) @ [make_job j]\<rparr>,
                     pool_pc := PSubmit (j + 1)\<rparr>"
      by (simp add: pool_main_def chan_send_def)
    from i PSubmit s j le u show ?thesis unfolding s'
      by (auto simp: pool_inv_def pool_items_def)
  next
    case False
    with st PSubmit have s': "s' = s\<lparr>pool_pc := PClose\<rparr>"
      by (simp add: pool_main_def)
    from False have "jobs_from j = []" by (rule jobs_from_end)
    with i PSubmit show ?thesis unfolding s'
      by (auto simp: pool_inv_def pool_items_def)
  qed
next
  case PClose
  from i PClose have op: "\<not> chan_closed (pool_jobs s)" by (simp add: pool_inv_def)
  with st PClose have s': "s' = s\<lparr>pool_jobs := (pool_jobs s)\<lparr>chan_closed := True\<rparr>, pool_pc := PCollect 0\<rparr>"
    by (simp add: pool_main_def chan_close_def)
  from i PClose show ?thesis unfolding s'
    by (auto simp: pool_inv_def pool_items_def)
next
  case (PCollect k)
  from i PCollect have k: "0 \<le> sint k" "sint k \<le> 5" and op: "\<not> chan_closed (pool_results s)"
    by (simp_all add: pool_inv_def)
  then have s: "sint (k + 1) = sint k + 1" by (simp add: sint_succ)
  show ?thesis
  proof (cases "k <s 5")
    case True
    then have lt: "sint k < 5" by (simp add: word_sless_alt)
    from st PCollect True op obtain r rs where
      b: "chan_buf (pool_results s) = r # rs" and
      s': "s' = s\<lparr>pool_results := (pool_results s)\<lparr>chan_buf := rs\<rparr>,
                  pool_collected := pool_collected s @ [r], pool_pc := PCollect (k + 1)\<rparr>"
      by (auto simp: pool_main_def chan_recv_def split: list.splits)
    from i PCollect s k lt b show ?thesis unfolding s'
      by (auto simp: pool_inv_def pool_items_def)
  next
    case False
    with st PCollect have s': "s' = s\<lparr>pool_pc := PEnd\<rparr>"
      by (simp add: pool_main_def)
    from False k have "sint k = 5" by (simp add: word_sless_alt)
    with i PCollect show ?thesis unfolding s'
      by (auto simp: pool_inv_def pool_items_def)
  qed
next
  case PEnd
  with st show ?thesis by (simp add: pool_main_def)
qed


lemma returned_update:
  "(PReturned \<in> set ws \<longrightarrow> Q) \<Longrightarrow> w \<noteq> PReturned \<Longrightarrow> PReturned \<in> set (ws[p := w]) \<longrightarrow> Q"
  using set_update_subset_insert [of ws p w] by auto

lemma worker_inv:
  assumes i: "pool_inv s" and st: "worker p s = Some s'"
  shows "pool_inv s'"
proof -
  from st have p: "p < length (pool_workers s)"
    by (auto simp: worker_def split: if_splits)
  from i have ret: "PReturned \<in> set (pool_workers s) \<longrightarrow>
      chan_closed (pool_jobs s) \<and> chan_buf (pool_jobs s) = []"
    by (simp add: pool_inv_def)
  from i have ok: "pool_pc_ok (pool_pc s) (length (pool_workers s)) (length (pool_collected s))
      (chan_closed (pool_jobs s))"
    by (simp add: pool_inv_def)
  from i have it: "pool_items s = image_mset process (mset (jobs_from 1))"
    by (simp add: pool_inv_def)
  from i have rest: "\<not> pool_panicked s" "chan_cap (pool_jobs s) = 5"
    "chan_cap (pool_results s) = 5" "\<not> chan_closed (pool_results s)"
    by (simp_all add: pool_inv_def)
  show ?thesis
  proof (cases "pool_workers s ! p")
    case PRecv
    show ?thesis
    proof (cases "chan_buf (pool_jobs s)")
      case Nil
      with st p PRecv have cl: "chan_closed (pool_jobs s)"
        and s': "s' = s\<lparr>pool_workers := (pool_workers s)[p := PReturned]\<rparr>"
        by (auto simp: worker_def chan_recv_def split: if_splits)
      from p PRecv have "sum_list (map pw_item ((pool_workers s)[p := PReturned]))
          = sum_list (map pw_item (pool_workers s))"
        using pw_items_put [of p "pool_workers s" PReturned] by simp
      with it have "pool_items s' = image_mset process (mset (jobs_from 1))"
        unfolding s' by (simp add: pool_items_def)
      with ok rest cl Nil show ?thesis unfolding s'
        by (simp add: pool_inv_def)
    next
      case (Cons job rest_jobs)
      with st p PRecv have
        s': "s' = s\<lparr>pool_jobs := (pool_jobs s)\<lparr>chan_buf := rest_jobs\<rparr>,
                   pool_workers := (pool_workers s)[p := PSend (process job)]\<rparr>"
        by (auto simp: worker_def chan_recv_def)
      from p PRecv have "sum_list (map pw_item ((pool_workers s)[p := PSend (process job)]))
          = sum_list (map pw_item (pool_workers s)) + {#process job#}"
        using pw_items_put [of p "pool_workers s" "PSend (process job)"] by simp
      with it Cons have "pool_items s' = image_mset process (mset (jobs_from 1))"
        unfolding s' by (simp add: pool_items_def)
      moreover from ret Cons have "PReturned \<notin> set (pool_workers s)" by auto
      then have "PReturned \<notin> set ((pool_workers s)[p := PSend (process job)])"
        using set_update_subset_insert [of "pool_workers s" p "PSend (process job)"] by auto
      ultimately show ?thesis using ok rest unfolding s'
        by (simp add: pool_inv_def)
    qed
  next
    case (PSend r)
    from p PSend have tk: "sum_list (map pw_item (pool_workers s))
        = sum_list (map pw_item ((pool_workers s)[p := PRecv])) + {#r#}"
      using pw_items_take [of p "pool_workers s" PRecv] by simp
    then have "size (sum_list (map pw_item (pool_workers s))) \<ge> 1" by simp
    with pool_size [OF i] have "length (chan_buf (pool_results s)) < 5" by simp
    with st p PSend rest have
      s': "s' = s\<lparr>pool_results := (pool_results s)\<lparr>chan_buf := chan_buf (pool_results s) @ [r]\<rparr>,
                 pool_workers := (pool_workers s)[p := PRecv]\<rparr>"
      by (simp add: worker_def chan_send_def)
    from it tk have "pool_items s' = image_mset process (mset (jobs_from 1))"
      unfolding s' by (simp add: pool_items_def)
    moreover from ret have "PReturned \<in> set ((pool_workers s)[p := PRecv]) \<longrightarrow>
        chan_closed (pool_jobs s) \<and> chan_buf (pool_jobs s) = []"
      by (rule returned_update) simp
    ultimately show ?thesis using ok rest unfolding s'
      by (simp add: pool_inv_def)
  next
    case PReturned
    with st p show ?thesis by (simp add: worker_def)
  qed
qed

lemma pool_inv_step: "pool_inv s \<Longrightarrow> pool_step e s = Some s' \<Longrightarrow> pool_inv s'"
  by (cases e) (auto simp: pool_step_def split: if_splits dest: pool_main_inv worker_inv)

lemma pool_inv_run: "pool_inv s \<Longrightarrow> pool_run sch s = Some s' \<Longrightarrow> pool_inv s'"
proof (induction sch arbitrary: s)
  case Nil
  then show ?case by simp
next
  case (Cons e es)
  then show ?case by (auto split: option.splits dest: pool_inv_step)
qed

lemma pool_run_append:
  "pool_run (a @ b) s = (case pool_run a s of None \<Rightarrow> None | Some s' \<Rightarrow> pool_run b s')"
  by (induction a arbitrary: s) (auto split: option.splits)


lemma pw_rank_update:
  "p < length ws \<Longrightarrow>
   sum_list (map pw_rank (ws[p := w])) + pw_rank (ws ! p) = sum_list (map pw_rank ws) + pw_rank w"
  by (rule sum_list_map_update)

lemma holder_exists:
  "sum_list (map pw_item ws) \<noteq> {#} \<Longrightarrow> \<exists>p < length ws. \<exists>r. ws ! p = PSend r"
proof (induction ws)
  case Nil
  then show ?case by simp
next
  case (Cons w ws)
  show ?case
  proof (cases "pw_item w = {#}")
    case True
    with Cons obtain p r where "p < length ws" "ws ! p = PSend r" by auto
    then have "Suc p < length (w # ws) \<and> (w # ws) ! Suc p = PSend r" by simp
    then show ?thesis by blast
  next
    case False
    then obtain r where "w = PSend r" by (cases w) simp_all
    then have "0 < length (w # ws) \<and> (w # ws) ! 0 = PSend r" by simp
    then show ?thesis by blast
  qed
qed

lemma progress_send:
  assumes i: "pool_inv s" and p: "p < length (pool_workers s)" and w: "pool_workers s ! p = PSend r"
  shows "\<exists>s'. pool_step (Worker p) s = Some s' \<and> pool_todo s' < pool_todo s"
proof -
  from i have rest: "\<not> pool_panicked s" "chan_cap (pool_results s) = 5"
    "\<not> chan_closed (pool_results s)"
    by (simp_all add: pool_inv_def)
  from p w have "sum_list (map pw_item (pool_workers s))
      = sum_list (map pw_item ((pool_workers s)[p := PRecv])) + {#r#}"
    using pw_items_take [of p "pool_workers s" PRecv] by simp
  then have "size (sum_list (map pw_item (pool_workers s))) \<ge> 1" by simp
  with pool_size [OF i] have "length (chan_buf (pool_results s)) < 5" by simp
  with p w rest have
    st: "pool_step (Worker p) s
       = Some (s\<lparr>pool_results := (pool_results s)\<lparr>chan_buf := chan_buf (pool_results s) @ [r]\<rparr>,
                 pool_workers := (pool_workers s)[p := PRecv]\<rparr>)"
    by (simp add: pool_step_def worker_def chan_send_def)
  from pw_rank_update [OF p, of PRecv] w
  have "sum_list (map pw_rank ((pool_workers s)[p := PRecv])) + 1
      = sum_list (map pw_rank (pool_workers s))" by simp
  then show ?thesis unfolding st by (simp add: pool_todo_def)
qed

lemma progress_recv:
  assumes i: "pool_inv s" and p: "p < length (pool_workers s)" and w: "pool_workers s ! p = PRecv"
    and b: "chan_buf (pool_jobs s) \<noteq> [] \<or> chan_closed (pool_jobs s)"
  shows "\<exists>s'. pool_step (Worker p) s = Some s' \<and> pool_todo s' < pool_todo s"
proof -
  from i have np: "\<not> pool_panicked s" by (simp add: pool_inv_def)
  show ?thesis
  proof (cases "chan_buf (pool_jobs s)")
    case Nil
    with b p w np have
      st: "pool_step (Worker p) s = Some (s\<lparr>pool_workers := (pool_workers s)[p := PReturned]\<rparr>)"
      by (simp add: pool_step_def worker_def chan_recv_def)
    from pw_rank_update [OF p, of PReturned] w
    have "sum_list (map pw_rank ((pool_workers s)[p := PReturned])) + 1
        = sum_list (map pw_rank (pool_workers s))" by simp
    then show ?thesis unfolding st by (simp add: pool_todo_def)
  next
    case (Cons job rest_jobs)
    with p w np have
      st: "pool_step (Worker p) s
         = Some (s\<lparr>pool_jobs := (pool_jobs s)\<lparr>chan_buf := rest_jobs\<rparr>,
                   pool_workers := (pool_workers s)[p := PSend (process job)]\<rparr>)"
      by (simp add: pool_step_def worker_def chan_recv_def)
    from pw_rank_update [OF p, of "PSend (process job)"] w
    have "sum_list (map pw_rank ((pool_workers s)[p := PSend (process job)]))
        = sum_list (map pw_rank (pool_workers s)) + 1" by simp
    with Cons show ?thesis unfolding st by (simp add: pool_todo_def)
  qed
qed

lemma progress_main:
  assumes i: "pool_inv s"
    and en: "\<forall>k. pool_pc s = PCollect k \<and> k <s 5 \<longrightarrow> chan_buf (pool_results s) \<noteq> []"
    and ne: "pool_pc s \<noteq> PEnd"
  shows "\<exists>s'. pool_step Main s = Some s' \<and> pool_todo s' < pool_todo s"
proof -
  from i have np: "\<not> pool_panicked s" by (simp add: pool_inv_def)
  show ?thesis
  proof (cases "pool_pc s")
    case (PSpawn w)
    from i PSpawn have w: "1 \<le> sint w" "sint w \<le> 4" by (simp_all add: pool_inv_def)
    then have s: "sint (w + 1) = sint w + 1" by (simp add: sint_succ)
    show ?thesis
    proof (cases "w \<le>s 3")
      case True
      then have "sint w \<le> 3" by (simp add: word_sle_eq)
      with np PSpawn True s show ?thesis
        by (simp add: pool_step_def pool_main_def pool_todo_def)
    next
      case False
      with np PSpawn show ?thesis
        by (simp add: pool_step_def pool_main_def pool_todo_def)
    qed
  next
    case (PSubmit j)
    from i PSubmit have j: "1 \<le> sint j" "sint j \<le> 6" and op: "\<not> chan_closed (pool_jobs s)"
      and cap: "chan_cap (pool_jobs s) = 5"
      by (simp_all add: pool_inv_def)
    then have s: "sint (j + 1) = sint j + 1" by (simp add: sint_succ)
    show ?thesis
    proof (cases "j \<le>s 5")
      case True
      then have le: "sint j \<le> 5" by (simp add: word_sle_eq)
      from j(1) True have u: "jobs_from j = make_job j # jobs_from (j + 1)" by (rule jobs_from_step)
      from pool_size [OF i] PSubmit u have "length (chan_buf (pool_jobs s)) < 5" by simp
      with np PSubmit True op cap s le u show ?thesis
        by (simp add: pool_step_def pool_main_def chan_send_def pool_todo_def)
    next
      case False
      then have "jobs_from j = []" by (rule jobs_from_end)
      with np PSubmit False show ?thesis
        by (simp add: pool_step_def pool_main_def pool_todo_def)
    qed
  next
    case PClose
    from i PClose have op: "\<not> chan_closed (pool_jobs s)" by (simp add: pool_inv_def)
    with np PClose show ?thesis
      by (simp add: pool_step_def pool_main_def chan_close_def pool_todo_def)
  next
    case (PCollect k)
    from i PCollect have k: "0 \<le> sint k" "sint k \<le> 5" by (simp_all add: pool_inv_def)
    then have s: "sint (k + 1) = sint k + 1" by (simp add: sint_succ)
    show ?thesis
    proof (cases "k <s 5")
      case True
      then have lt: "sint k < 5" by (simp add: word_sless_alt)
      from en PCollect True obtain r rs where b: "chan_buf (pool_results s) = r # rs"
        by (cases "chan_buf (pool_results s)") auto
      with np PCollect True s lt show ?thesis
        by (simp add: pool_step_def pool_main_def chan_recv_def pool_todo_def)
    next
      case False
      with np PCollect show ?thesis
        by (simp add: pool_step_def pool_main_def pool_todo_def)
    qed
  next
    case PEnd
    with ne show ?thesis by simp
  qed
qed

lemma no_holder:
  "sum_list (map pw_item ws) = {#} \<Longrightarrow> w \<in> set ws \<Longrightarrow> w = PRecv \<or> w = PReturned"
  by (induction ws) (auto elim: pw_item.elims)

lemma pool_progress:
  assumes i: "pool_inv s" and nf: "\<not> pool_finished s"
  shows "\<exists>e s'. pool_step e s = Some s' \<and> pool_todo s' < pool_todo s"
proof (cases "sum_list (map pw_item (pool_workers s)) = {#}")
  case False
  then obtain p r where "p < length (pool_workers s)" "pool_workers s ! p = PSend r"
    using holder_exists by blast
  with i show ?thesis using progress_send by blast
next
  case held: True
  from i have ret: "PReturned \<in> set (pool_workers s) \<longrightarrow>
      chan_closed (pool_jobs s) \<and> chan_buf (pool_jobs s) = []"
    by (simp add: pool_inv_def)
  from i have ok: "pool_pc_ok (pool_pc s) (length (pool_workers s)) (length (pool_collected s))
      (chan_closed (pool_jobs s))"
    by (simp add: pool_inv_def)
  show ?thesis
  proof (cases "pool_pc s = PEnd")
    case True
    with ok have cl: "chan_closed (pool_jobs s)" by simp
    from nf True obtain w where "w \<in> set (pool_workers s)" "w \<noteq> PReturned"
      by (auto simp: pool_finished_def)
    with held have "w = PRecv" using no_holder by blast
    with \<open>w \<in> set (pool_workers s)\<close> obtain p where
      "p < length (pool_workers s)" "pool_workers s ! p = PRecv"
      by (auto simp: in_set_conv_nth)
    with i cl show ?thesis using progress_recv by blast
  next
    case notend: False
    show ?thesis
    proof (cases "\<exists>k. pool_pc s = PCollect k \<and> k <s 5 \<and> chan_buf (pool_results s) = []")
      case False
      with i notend show ?thesis using progress_main by blast
    next
      case True
      then obtain k where pc: "pool_pc s = PCollect k" and lt: "k <s 5"
        and e: "chan_buf (pool_results s) = []" by blast
      from lt have "sint k < 5" by (simp add: word_sless_alt)
      with ok pc have "length (pool_collected s) < 5" and nw: "length (pool_workers s) = 3" by simp_all
      with pool_size [OF i] pc e held have b: "chan_buf (pool_jobs s) \<noteq> []" by auto
      with ret have "PReturned \<notin> set (pool_workers s)" by blast
      moreover from nw have "pool_workers s ! 0 \<in> set (pool_workers s)" by simp
      ultimately have "pool_workers s ! 0 = PRecv" using held no_holder by metis
      with i nw b show ?thesis using progress_recv [of s 0] by auto
    qed
  qed
qed

lemma pool_completes:
  "pool_inv s \<Longrightarrow> \<exists>sch s'. pool_run sch s = Some s' \<and> pool_finished s'"
proof (induction "pool_todo s" arbitrary: s rule: less_induct)
  case less
  show ?case
  proof (cases "pool_finished s")
    case True
    then have "pool_run [] s = Some s \<and> pool_finished s" by simp
    then show ?thesis by blast
  next
    case False
    with less.prems obtain e s1 where st: "pool_step e s = Some s1" and lt: "pool_todo s1 < pool_todo s"
      using pool_progress by blast
    from less.prems st have "pool_inv s1" by (rule pool_inv_step)
    with less.hyps [OF lt] obtain sch s' where "pool_run sch s1 = Some s'" "pool_finished s'"
      by blast
    with st have "pool_run (e # sch) s = Some s' \<and> pool_finished s'" by simp
    then show ?thesis by blast
  qed
qed


lemma pool_results:
  "image_mset process (mset (jobs_from 1))
   = {#\<lparr>Job = \<lparr>ID = 1, Data = ''Job 1 data''\<rparr>, Output = ''Processed: Job 1 data''\<rparr>,
       \<lparr>Job = \<lparr>ID = 2, Data = ''Job 2 data''\<rparr>, Output = ''Processed: Job 2 data''\<rparr>,
       \<lparr>Job = \<lparr>ID = 3, Data = ''Job 3 data''\<rparr>, Output = ''Processed: Job 3 data''\<rparr>,
       \<lparr>Job = \<lparr>ID = 4, Data = ''Job 4 data''\<rparr>, Output = ''Processed: Job 4 data''\<rparr>,
       \<lparr>Job = \<lparr>ID = 5, Data = ''Job 5 data''\<rparr>, Output = ''Processed: Job 5 data''\<rparr>#}"
  by (simp add: jobs_from_1 make_job_vals process_def)

lemma pool_inv_results:
  assumes i: "pool_inv s"
    and r: "r \<in> set (pool_collected s) \<or> r \<in> set (chan_buf (pool_results s))
            \<or> PSend r \<in> set (pool_workers s)"
  shows "r \<in># image_mset process (mset (jobs_from 1))"
proof -
  have h: "PSend r \<in> set ws \<Longrightarrow> r \<in># sum_list (map pw_item ws)" for ws
    by (induction ws) auto
  from r h have "r \<in># pool_items s" by (auto simp: pool_items_def)
  with i show ?thesis by (simp add: pool_inv_def)
qed

lemma pool_inv_end:
  assumes i: "pool_inv s" and e: "pool_pc s = PEnd"
  shows "mset (pool_collected s) = image_mset process (mset (jobs_from 1))"
proof -
  from i e have "length (pool_collected s) = 5" by (simp add: pool_inv_def)
  with pool_size [OF i] e have "chan_buf (pool_jobs s) = []"
    "sum_list (map pw_item (pool_workers s)) = {#}" "chan_buf (pool_results s) = []"
    by simp_all
  with i e show ?thesis by (simp add: pool_inv_def pool_items_def)
qed

text \<open>
  C6. The pool has no failure path: a \<open>Result\<close> holds the job and its output and nothing
  else, and what a worker does with a job, formatting \<open>"Processed: "\<close> followed by the
  job's data, cannot fail. In every execution of the pool of \<open>courseFour\<close> (3 workers,
  the 5 jobs, both channels of capacity 5) no goroutine panics; every result that a
  worker holds, that is queued or that was collected is one of the 5 jobs together with
  \<open>"Processed: "\<close> and its data; when the coordinator's last loop has ended it has
  collected exactly one result for each job, in some order; and every execution can be
  continued until the coordinator has all 5 results and the 3 workers have returned.
\<close>

theorem worker_pool_results:
  assumes "pool_run sch pool_init = Some s"
  shows "\<not> pool_panicked s
    \<and> (\<forall>r. r \<in> set (pool_collected s) \<or> r \<in> set (chan_buf (pool_results s))
            \<or> PSend r \<in> set (pool_workers s) \<longrightarrow>
          Output r = ''Processed: '' @ Data (Job r)
          \<and> Job r \<in> {\<lparr>ID = 1, Data = ''Job 1 data''\<rparr>, \<lparr>ID = 2, Data = ''Job 2 data''\<rparr>,
                       \<lparr>ID = 3, Data = ''Job 3 data''\<rparr>, \<lparr>ID = 4, Data = ''Job 4 data''\<rparr>,
                       \<lparr>ID = 5, Data = ''Job 5 data''\<rparr>})
    \<and> (pool_pc s = PEnd \<longrightarrow>
          mset (pool_collected s)
          = {#\<lparr>Job = \<lparr>ID = 1, Data = ''Job 1 data''\<rparr>, Output = ''Processed: Job 1 data''\<rparr>,
              \<lparr>Job = \<lparr>ID = 2, Data = ''Job 2 data''\<rparr>, Output = ''Processed: Job 2 data''\<rparr>,
              \<lparr>Job = \<lparr>ID = 3, Data = ''Job 3 data''\<rparr>, Output = ''Processed: Job 3 data''\<rparr>,
              \<lparr>Job = \<lparr>ID = 4, Data = ''Job 4 data''\<rparr>, Output = ''Processed: Job 4 data''\<rparr>,
              \<lparr>Job = \<lparr>ID = 5, Data = ''Job 5 data''\<rparr>, Output = ''Processed: Job 5 data''\<rparr>#})
    \<and> (\<exists>sch' s'. pool_run sch' s = Some s' \<and> pool_finished s'
          \<and> length (pool_collected s') = 5 \<and> \<not> pool_panicked s')"
proof -
  have inv: "pool_inv s" using pool_inv_run [OF pool_inv_init assms] .
  then have np: "\<not> pool_panicked s" by (simp add: pool_inv_def)
  have res: "Output r = ''Processed: '' @ Data (Job r)
          \<and> Job r \<in> {\<lparr>ID = 1, Data = ''Job 1 data''\<rparr>, \<lparr>ID = 2, Data = ''Job 2 data''\<rparr>,
                       \<lparr>ID = 3, Data = ''Job 3 data''\<rparr>, \<lparr>ID = 4, Data = ''Job 4 data''\<rparr>,
                       \<lparr>ID = 5, Data = ''Job 5 data''\<rparr>}"
    if "r \<in> set (pool_collected s) \<or> r \<in> set (chan_buf (pool_results s))
            \<or> PSend r \<in> set (pool_workers s)" for r
  proof -
    from pool_inv_results [OF inv that] have "r \<in># image_mset process (mset (jobs_from 1))" .
    then show ?thesis unfolding pool_results by auto
  qed
  have fin: "pool_pc s = PEnd \<longrightarrow> mset (pool_collected s) = image_mset process (mset (jobs_from 1))"
    using pool_inv_end [OF inv] by blast
  from pool_completes [OF inv] obtain sch' s' where
    r: "pool_run sch' s = Some s'" and f: "pool_finished s'" by blast
  have inv': "pool_inv s'" using pool_inv_run [OF inv r] .
  with f have "length (pool_collected s') = 5 \<and> \<not> pool_panicked s'"
    by (simp add: pool_inv_def pool_finished_def)
  with r f have "\<exists>sch' s'. pool_run sch' s = Some s' \<and> pool_finished s'
          \<and> length (pool_collected s') = 5 \<and> \<not> pool_panicked s'" by blast
  with np res fin show ?thesis unfolding pool_results by blast
qed

text \<open>
  An execution in which the workers overtake each other: the results arrive in the order
  2, 1, 3, 5, 4.
\<close>

theorem worker_pool_results_witness:
  "pool_run
       [Main, Main, Main, Main, Main, Main, Worker 0, Worker 1, Worker 1, Worker 0, Main,
        Main, Main, Main, Main, Worker 2, Worker 2, Worker 0, Worker 1, Worker 1, Worker 0,
        Main, Main, Main, Main, Main, Main, Worker 0, Worker 1, Worker 2]
       pool_init
     = Some \<lparr>pool_jobs = \<lparr>chan_buf = [], chan_cap = 5, chan_closed = True\<rparr>,
         pool_results = \<lparr>chan_buf = [], chan_cap = 5, chan_closed = False\<rparr>,
         pool_workers = [PReturned, PReturned, PReturned], pool_pc = PEnd,
         pool_collected =
           [\<lparr>Job = \<lparr>ID = 2, Data = ''Job 2 data''\<rparr>, Output = ''Processed: Job 2 data''\<rparr>,
            \<lparr>Job = \<lparr>ID = 1, Data = ''Job 1 data''\<rparr>, Output = ''Processed: Job 1 data''\<rparr>,
            \<lparr>Job = \<lparr>ID = 3, Data = ''Job 3 data''\<rparr>, Output = ''Processed: Job 3 data''\<rparr>,
            \<lparr>Job = \<lparr>ID = 5, Data = ''Job 5 data''\<rparr>, Output = ''Processed: Job 5 data''\<rparr>,
            \<lparr>Job = \<lparr>ID = 4, Data = ''Job 4 data''\<rparr>, Output = ''Processed: Job 4 data''\<rparr>],
         pool_panicked = False\<rparr>
   \<and> mset [\<lparr>Job = \<lparr>ID = 2, Data = ''Job 2 data''\<rparr>, Output = ''Processed: Job 2 data''\<rparr>,
            \<lparr>Job = \<lparr>ID = 1, Data = ''Job 1 data''\<rparr>, Output = ''Processed: Job 1 data''\<rparr>,
            \<lparr>Job = \<lparr>ID = 3, Data = ''Job 3 data''\<rparr>, Output = ''Processed: Job 3 data''\<rparr>,
            \<lparr>Job = \<lparr>ID = 5, Data = ''Job 5 data''\<rparr>, Output = ''Processed: Job 5 data''\<rparr>,
            \<lparr>Job = \<lparr>ID = 4, Data = ''Job 4 data''\<rparr>, Output = ''Processed: Job 4 data''\<rparr>]
     = {#\<lparr>Job = \<lparr>ID = 1, Data = ''Job 1 data''\<rparr>, Output = ''Processed: Job 1 data''\<rparr>,
         \<lparr>Job = \<lparr>ID = 2, Data = ''Job 2 data''\<rparr>, Output = ''Processed: Job 2 data''\<rparr>,
         \<lparr>Job = \<lparr>ID = 3, Data = ''Job 3 data''\<rparr>, Output = ''Processed: Job 3 data''\<rparr>,
         \<lparr>Job = \<lparr>ID = 4, Data = ''Job 4 data''\<rparr>, Output = ''Processed: Job 4 data''\<rparr>,
         \<lparr>Job = \<lparr>ID = 5, Data = ''Job 5 data''\<rparr>, Output = ''Processed: Job 5 data''\<rparr>#}"
proof -
  have r: "pool_run
       [Main, Main, Main, Main, Main, Main, Worker 0, Worker 1, Worker 1, Worker 0, Main,
        Main, Main, Main, Main, Worker 2, Worker 2, Worker 0, Worker 1, Worker 1, Worker 0,
        Main, Main, Main, Main, Main, Main, Worker 0, Worker 1, Worker 2]
       pool_init
     = Some \<lparr>pool_jobs = \<lparr>chan_buf = [], chan_cap = 5, chan_closed = True\<rparr>,
         pool_results = \<lparr>chan_buf = [], chan_cap = 5, chan_closed = False\<rparr>,
         pool_workers = [PReturned, PReturned, PReturned], pool_pc = PEnd,
         pool_collected =
           [\<lparr>Job = \<lparr>ID = 2, Data = ''Job 2 data''\<rparr>, Output = ''Processed: Job 2 data''\<rparr>,
            \<lparr>Job = \<lparr>ID = 1, Data = ''Job 1 data''\<rparr>, Output = ''Processed: Job 1 data''\<rparr>,
            \<lparr>Job = \<lparr>ID = 3, Data = ''Job 3 data''\<rparr>, Output = ''Processed: Job 3 data''\<rparr>,
            \<lparr>Job = \<lparr>ID = 5, Data = ''Job 5 data''\<rparr>, Output = ''Processed: Job 5 data''\<rparr>,
            \<lparr>Job = \<lparr>ID = 4, Data = ''Job 4 data''\<rparr>, Output = ''Processed: Job 4 data''\<rparr>],
         pool_panicked = False\<rparr>"
    by code_simp
  from worker_pool_results [OF r] show ?thesis using r by simp
qed

text \<open>
  No error is ever captured, because there is nowhere to put one and nothing that fails:
  a worker that takes a job, here one with the identifier \<open>-1\<close> and no data, goes on to
  send the job with \<open>"Processed: "\<close>, and two results with the same job and the same
  output are the same result.
\<close>

theorem worker_has_no_error_path:
  "worker 0 \<lparr>pool_jobs = \<lparr>chan_buf = [\<lparr>ID = - 1, Data = []\<rparr>], chan_cap = 5, chan_closed = True\<rparr>,
             pool_results = make_chan 5, pool_workers = [PRecv], pool_pc = PCollect 0,
             pool_collected = [], pool_panicked = False\<rparr>
   = Some \<lparr>pool_jobs = \<lparr>chan_buf = [], chan_cap = 5, chan_closed = True\<rparr>,
           pool_results = make_chan 5,
           pool_workers = [PSend \<lparr>Job = \<lparr>ID = - 1, Data = []\<rparr>, Output = ''Processed: ''\<rparr>],
           pool_pc = PCollect 0, pool_collected = [], pool_panicked = False\<rparr>
   \<and> \<not> (\<exists>r r' :: Result. Job r = Job r' \<and> Output r = Output r' \<and> r \<noteq> r')"
  by (simp add: worker_def chan_recv_def process_def)

section \<open>The receive guarded by a timeout: the first event decides\<close>

























end
